theory Spec2Isabelle
  imports Complex_Main "HOL-Library.Multiset" "HOL-Library.Char_ord" "HOL-Library.List_Lexorder"
begin

section \<open>The notebook \<^verbatim>\<open>sagemaker_xgboost_hpo.ipynb\<close>\<close>

text \<open>
  The notebook's own logic is a handful of cells: the column transforms of the bank
  marketing table, the shuffle and split into three partitions, the serialisation of the
  partitions, and the loop that waits for the tuning job. Each cell is embedded below as a
  function over explicit values. What a cell reads from outside (the status endpoint, the
  random number generator) is a parameter of its function, and the pandas and numpy calls
  it makes are embedded with the behaviour of the library at the arguments the cell passes.
\<close>

subsection \<open>Exceptions\<close>

text \<open>
  The Python exceptions the cells can raise. \<open>KeyError\<close> carries the labels that were not
  found, \<open>ClientError\<close> stands for whatever the service call raises.
\<close>

datatype exn =
    KeyError "string list"
  | IndexError
  | ValueError string
  | ClientError string

section \<open>Waiting for the tuning job\<close>

text \<open>
  \<^verbatim>\<open>
  hpo_state = "InProgress"
  while hpo_state == "InProgress":
      hpo_state = sgmk_client.describe_hyper_parameter_tuning_job(
                  HyperParameterTuningJobName=...)["HyperParameterTuningJobStatus"]
      print("-", end="")
      time.sleep(60)  # poll once every 1 min
  print("\nHPO state:", hpo_state)
  \<close>
  The service is a status source: the function that gives, for the \<open>k\<close>-th call of
  \<open>describe_hyper_parameter_tuning_job\<close> (counted from 0), either the status string of the
  response or the exception the call raises. The state of the cell is the variable
  \<open>hpo_state\<close>, the number of calls made so far, and its effects so far, in order.
\<close>

datatype event = Describe | Print string | Sleep nat

record poll_state =
  hpo_state :: string
  calls :: nat
  effects :: "event list"

text \<open>
  The loop may run forever, so it is a partial function: \<open>None\<close> is the run that never
  leaves the loop, \<open>Some (Inl (e, st))\<close> the run that a raising call ends, with the state
  at that moment, and \<open>Some (Inr st)\<close> the run that leaves the loop with state \<open>st\<close>.
\<close>

partial_function (option) poll_loop ::
  "(nat \<Rightarrow> exn + string) \<Rightarrow> poll_state \<Rightarrow> (exn \<times> poll_state + poll_state) option" where
  "poll_loop src st =
     (if hpo_state st = ''InProgress'' then
        (case src (calls st) of
           Inl e \<Rightarrow> Some (Inl (e, st\<lparr>calls := Suc (calls st),
                                     effects := effects st @ [Describe]\<rparr>))
         | Inr s \<Rightarrow> poll_loop src
             (st\<lparr>hpo_state := s, calls := Suc (calls st),
                 effects := effects st @ [Describe, Print ''-'', Sleep 60]\<rparr>))
      else Some (Inr st))"

declare poll_loop.simps [code]

text \<open>The whole cell: the initial assignment, the loop, and the last \<open>print\<close>.\<close>

definition wait_for_hpo ::
  "(nat \<Rightarrow> exn + string) \<Rightarrow> (exn \<times> poll_state + poll_state) option" where
  "wait_for_hpo src =
     (case poll_loop src \<lparr>hpo_state = ''InProgress'', calls = 0, effects = []\<rparr> of
        None \<Rightarrow> None
      | Some (Inl err) \<Rightarrow> Some (Inl err)
      | Some (Inr st) \<Rightarrow>
          Some (Inr (st\<lparr>effects := effects st @
            [Print (CHR 0x0A # ''HPO state: '' @ hpo_state st @ [CHR 0x0A])]\<rparr>)))"

text \<open>The effects of \<open>n\<close> complete passes through the loop body.\<close>

definition iterations :: "nat \<Rightarrow> event list" where
  "iterations n = concat (replicate n [Describe, Print ''-'', Sleep 60])"

text \<open>A status source that gives the same status at every call.\<close>

definition const_source :: "string \<Rightarrow> nat \<Rightarrow> exn + string" where
  "const_source s = (\<lambda>n. Inr s)"

text \<open>A status source whose every call raises.\<close>

definition failing_source :: "exn \<Rightarrow> nat \<Rightarrow> exn + string" where
  "failing_source e = (\<lambda>n. Inl e)"

text \<open>
  \<open>ends_at src st m r\<close>: started in \<open>st\<close>, the loop sees \<open>InProgress\<close> at its next \<open>m\<close>
  calls, and the call after them ends the run with result \<open>r\<close>, by a status other than
  \<open>InProgress\<close> or by an exception.
\<close>

definition ends_at ::
  "(nat \<Rightarrow> exn + string) \<Rightarrow> poll_state \<Rightarrow> nat \<Rightarrow> (exn \<times> poll_state + poll_state) \<Rightarrow> bool" where
  "ends_at src st m r \<longleftrightarrow>
     (\<forall>i<m. src (calls st + i) = Inr ''InProgress'') \<and>
     (case src (calls st + m) of
        Inr t \<Rightarrow> t \<noteq> ''InProgress'' \<and>
                 r = Inr (st\<lparr>hpo_state := t, calls := calls st + Suc m,
                             effects := effects st @ iterations (Suc m)\<rparr>)
      | Inl e \<Rightarrow> r = Inl (e, st\<lparr>calls := calls st + Suc m,
                                 effects := effects st @ iterations m @ [Describe]\<rparr>))"

text \<open>The state a run ends in, and its effects.\<close>

definition run_state :: "(exn \<times> poll_state + poll_state) \<Rightarrow> poll_state" where
  "run_state r = (case r of Inl (e, st) \<Rightarrow> st | Inr st \<Rightarrow> st)"

definition run_effects :: "(exn \<times> poll_state + poll_state) \<Rightarrow> event list" where
  "run_effects r = effects (run_state r)"

section \<open>Data frames\<close>

text \<open>
  A pandas column has one dtype. \<open>read_csv\<close> gives \<open>int64\<close> to a column of integers,
  \<open>float64\<close> to a column of numbers with a fraction or a missing entry, and \<open>object\<close> to a
  column with any other text: its entries are then strings, or missing where the field is
  empty or one of the default markers such as \<open>NA\<close>. \<open>None\<close> is the missing entry (NaN).
  A float is kept as the rational it denotes: the cells only compare floats, they never
  compute with them. The indicator columns that numpy and pandas build (\<open>int64\<close> from
  \<open>np.where\<close>, \<open>uint8\<close> from \<open>get_dummies\<close>) are \<open>IntCol\<close>: their entries are 0 and 1
  whatever the width.
\<close>

datatype column =
    IntCol "int list"
  | FloatCol "rat option list"
  | ObjectCol "string option list"

datatype cell = IntV int | FloatV "rat option" | ObjectV "string option"

fun cells :: "column \<Rightarrow> cell list" where
  "cells (IntCol xs) = map IntV xs"
| "cells (FloatCol xs) = map FloatV xs"
| "cells (ObjectCol xs) = map ObjectV xs"

definition col_len :: "column \<Rightarrow> nat" where
  "col_len c = length (cells c)"

fun is_object :: "column \<Rightarrow> bool" where
  "is_object (ObjectCol xs) = True"
| "is_object (IntCol xs) = False"
| "is_object (FloatCol xs) = False"

text \<open>
  A frame is its index (the row labels) and its labelled columns in order. \<open>read_csv\<close>
  labels the rows \<open>0, 1, ...\<close> and renames repeated column labels, so the frame the
  notebook starts from has distinct row labels and distinct column labels.
\<close>

record dataframe =
  index :: "nat list"
  columns :: "(string \<times> column) list"

definition nrows :: "dataframe \<Rightarrow> nat" where
  "nrows df = length (index df)"

definition labels :: "dataframe \<Rightarrow> string list" where
  "labels df = map fst (columns df)"

definition well_formed :: "dataframe \<Rightarrow> bool" where
  "well_formed df \<longleftrightarrow>
     distinct (index df) \<and> (\<forall>c \<in> snd ` set (columns df). col_len c = nrows df)"

text \<open>The row with position \<open>i\<close>, and all rows with their labels.\<close>

definition row_cells :: "dataframe \<Rightarrow> nat \<Rightarrow> cell list" where
  "row_cells df i = map (\<lambda>(l, c). cells c ! i) (columns df)"

definition rows :: "dataframe \<Rightarrow> (nat \<times> cell list) list" where
  "rows df = map (\<lambda>i. (index df ! i, row_cells df i)) [0..<nrows df]"

text \<open>
  \<open>df[l]\<close> raises \<open>KeyError\<close> when no column has the label. When one column has it,
  \<open>df[l]\<close> is that column; when several have it, \<open>df[l]\<close> is the frame of all of them.
  \<open>getitem\<close> is the reading as one column, for the labels \<open>pdays\<close> and \<open>job\<close> of the
  transforms: the frame read from the file has each label once, and the encoding cannot
  repeat these two, its labels having an underscore. \<open>getitem_all\<close> is the reading for any
  frame: every column with the label, in order.
\<close>

definition getitem :: "dataframe \<Rightarrow> string \<Rightarrow> exn + column" where
  "getitem df l = (case map_of (columns df) l of None \<Rightarrow> Inl (KeyError [l]) | Some c \<Rightarrow> Inr c)"

definition getitem_all :: "dataframe \<Rightarrow> string \<Rightarrow> exn + (string \<times> column) list" where
  "getitem_all df l =
     (let found = filter (\<lambda>(l', c). l' = l) (columns df)
      in if found = [] then Inl (KeyError [l]) else Inr found)"

text \<open>
  \<open>df[l] = values\<close> overwrites the column labelled \<open>l\<close> in place, and appends a new last
  column when there is none.
\<close>

definition setitem :: "dataframe \<Rightarrow> string \<Rightarrow> column \<Rightarrow> dataframe" where
  "setitem df l c =
     (if l \<in> set (labels df)
      then df\<lparr>columns := map (\<lambda>(l', c'). if l' = l then (l, c) else (l', c')) (columns df)\<rparr>
      else df\<lparr>columns := columns df @ [(l, c)]\<rparr>)"

text \<open>
  \<open>df.drop(ls, axis=1)\<close> raises \<open>KeyError\<close> with the labels of \<open>ls\<close> that are not in the
  frame; otherwise it is the frame without the columns labelled in \<open>ls\<close>.
\<close>

definition drop_columns :: "dataframe \<Rightarrow> string list \<Rightarrow> exn + dataframe" where
  "drop_columns df ls =
     (let missing = filter (\<lambda>l. l \<notin> set (labels df)) ls
      in if missing \<noteq> [] then Inl (KeyError missing)
         else Inr (df\<lparr>columns := filter (\<lambda>(l, c). l \<notin> set ls) (columns df)\<rparr>))"

section \<open>The column transforms\<close>

text \<open>
  \<^verbatim>\<open>
  df_data["no_previous_contact"] = np.where(df_data["pdays"] == 999, 1, 0)
  df_data["not_working"] = np.where(np.in1d(df_data["job"], ["student", "retired", "unemployed"]), 1, 0)
  df_model_data = df_data.drop(["duration", "emp.var.rate", "cons.price.idx",
                                "cons.conf.idx", "euribor3m", "nr.employed"], axis=1)
  df_model_data = pd.get_dummies(df_model_data)
  \<close>
  \<open>column == k\<close> compares entry by entry: an integer or a float equals the integer \<open>k\<close>
  when it has that value, a string or a missing entry never does.
\<close>

fun eq_scalar :: "column \<Rightarrow> int \<Rightarrow> bool list" where
  "eq_scalar (IntCol xs) k = map (\<lambda>x. x = k) xs"
| "eq_scalar (FloatCol xs) k = map (\<lambda>x. x = Some (of_int k)) xs"
| "eq_scalar (ObjectCol xs) k = map (\<lambda>x. False) xs"

definition np_where :: "bool list \<Rightarrow> int \<Rightarrow> int \<Rightarrow> column" where
  "np_where cond a b = IntCol (map (\<lambda>t. if t then a else b) cond)"

text \<open>\<open>np.in1d(column, strings)\<close>: a number or a missing entry is none of the strings.\<close>

fun in1d :: "column \<Rightarrow> string list \<Rightarrow> bool list" where
  "in1d (ObjectCol xs) vs = map (\<lambda>x. case x of None \<Rightarrow> False | Some s \<Rightarrow> s \<in> set vs) xs"
| "in1d (IntCol xs) vs = map (\<lambda>x. False) xs"
| "in1d (FloatCol xs) vs = map (\<lambda>x. False) xs"

text \<open>
  \<open>pd.get_dummies(df)\<close> with its default arguments. The columns that are not of dtype
  \<open>object\<close> come first, as they are. Then each \<open>object\<close> column, in order, gives one
  indicator column for each of its levels: the distinct values present, sorted, missing
  entries left out (\<open>dummy_na=False\<close>). The indicator of level \<open>v\<close> is labelled with the
  column's label, an underscore and \<open>v\<close>, and holds 1 in the rows whose entry is \<open>v\<close> and 0
  in all others, so a row with a missing entry holds 0 in every indicator of the column.
  The result is built by \<open>pd.concat\<close>, which raises \<open>ValueError\<close> when given nothing: that
  is the case of a frame with no column at all.
\<close>

definition levels :: "string option list \<Rightarrow> string list" where
  "levels vs = sort (remdups (List.map_filter id vs))"

definition dummies_1d :: "string \<Rightarrow> string option list \<Rightarrow> (string \<times> column) list" where
  "dummies_1d prefix vs =
     map (\<lambda>v. (prefix @ ''_'' @ v, IntCol (map (\<lambda>x. if x = Some v then 1 else 0) vs)))
       (levels vs)"

fun dummies :: "string \<times> column \<Rightarrow> (string \<times> column) list" where
  "dummies (l, ObjectCol vs) = dummies_1d l vs"
| "dummies (l, IntCol xs) = []"
| "dummies (l, FloatCol xs) = []"

definition get_dummies :: "dataframe \<Rightarrow> exn + dataframe" where
  "get_dummies df =
     (if columns df = [] then Inl (ValueError ''No objects to concatenate'')
      else Inr (df\<lparr>columns := filter (\<lambda>(l, c). \<not> is_object c) (columns df) @
                               concat (map dummies (columns df))\<rparr>))"

text \<open>
  The four statements of the cell. The two assignments change \<open>df_data\<close> in place; here
  each statement returns the frame it leaves behind, and the next one takes it.
\<close>

definition add_no_previous_contact :: "dataframe \<Rightarrow> exn + dataframe" where
  "add_no_previous_contact df_data =
     (case getitem df_data ''pdays'' of
        Inl e \<Rightarrow> Inl e
      | Inr pdays \<Rightarrow>
          Inr (setitem df_data ''no_previous_contact'' (np_where (eq_scalar pdays 999) 1 0)))"

definition add_not_working :: "dataframe \<Rightarrow> exn + dataframe" where
  "add_not_working df_data =
     (case getitem df_data ''job'' of
        Inl e \<Rightarrow> Inl e
      | Inr job \<Rightarrow> Inr (setitem df_data ''not_working''
          (np_where (in1d job [''student'', ''retired'', ''unemployed'']) 1 0)))"

definition unnecessary :: "string list" where
  "unnecessary = [''duration'', ''emp.var.rate'', ''cons.price.idx'', ''cons.conf.idx'',
                  ''euribor3m'', ''nr.employed'']"

text \<open>The last two statements, which make \<open>df_model_data\<close>, and the whole cell.\<close>

definition drop_and_encode :: "dataframe \<Rightarrow> exn + dataframe" where
  "drop_and_encode df_data =
     (case drop_columns df_data unnecessary of
        Inl e \<Rightarrow> Inl e
      | Inr df_model_data \<Rightarrow> get_dummies df_model_data)"

definition transform :: "dataframe \<Rightarrow> exn + dataframe" where
  "transform df_data =
     (case add_no_previous_contact df_data of
        Inl e \<Rightarrow> Inl e
      | Inr df1 \<Rightarrow>
     (case add_not_working df1 of
        Inl e \<Rightarrow> Inl e
      | Inr df2 \<Rightarrow> drop_and_encode df2))"

text \<open>Reading the results: whether a cell equals 999, and the sum of a row over a block
  of indicator columns.\<close>

fun is_999 :: "cell \<Rightarrow> bool" where
  "is_999 (IntV x) = (x = 999)"
| "is_999 (FloatV x) = (x = Some 999)"
| "is_999 (ObjectV s) = False"

fun int_at :: "column \<Rightarrow> nat \<Rightarrow> int" where
  "int_at (IntCol xs) i = xs ! i"
| "int_at (FloatCol xs) i = 0"
| "int_at (ObjectCol xs) i = 0"

definition row_sum :: "(string \<times> column) list \<Rightarrow> nat \<Rightarrow> int" where
  "row_sum block i = sum_list (map (\<lambda>(l, c). int_at c i) block)"

text \<open>
  What the encoding is expected to make of an \<open>object\<close> column labelled \<open>l\<close> with the
  entries \<open>vs\<close>, said without the encoder: one indicator column for each distinct value
  present, in increasing order of the values. And the number of distinct values present
  in a column, which is 0 for a column that is not encoded.
\<close>

definition one_hot_block :: "string \<Rightarrow> string option list \<Rightarrow> (string \<times> column) list" where
  "one_hot_block l vs =
     map (\<lambda>v. (l @ ''_'' @ v, IntCol (map (\<lambda>x. if x = Some v then 1 else 0) vs)))
       (sorted_list_of_set {v. Some v \<in> set vs})"

fun n_values :: "column \<Rightarrow> nat" where
  "n_values (ObjectCol vs) = card {v. Some v \<in> set vs}"
| "n_values (IntCol xs) = 0"
| "n_values (FloatCol xs) = 0"

section \<open>Shuffle and split\<close>

text \<open>
  \<^verbatim>\<open>
  train_data, validation_data, test_data = np.split(
      df_model_data.sample(frac=1, random_state=1729),
      [int(0.7 * len(df_model_data)), int(0.9*len(df_model_data))],
  )
  \<close>
\<close>

subsection \<open>Sampling\<close>

text \<open>
  \<open>df.take(locs)\<close> is the frame of the rows at the positions \<open>locs\<close>, in that order, each
  with its label; a position outside the frame raises \<open>IndexError\<close>.
\<close>

fun take_col :: "nat list \<Rightarrow> column \<Rightarrow> column" where
  "take_col locs (IntCol xs) = IntCol (map (\<lambda>i. xs ! i) locs)"
| "take_col locs (FloatCol xs) = FloatCol (map (\<lambda>i. xs ! i) locs)"
| "take_col locs (ObjectCol xs) = ObjectCol (map (\<lambda>i. xs ! i) locs)"

definition take_rows :: "nat list \<Rightarrow> dataframe \<Rightarrow> exn + dataframe" where
  "take_rows locs df =
     (if \<exists>i \<in> set locs. nrows df \<le> i then Inl IndexError
      else Inr \<lparr>index = map (\<lambda>i. index df ! i) locs,
                columns = map (\<lambda>(l, c). (l, take_col locs c)) (columns df)\<rparr>)"

text \<open>
  \<open>df.sample(frac=1, random_state=rs)\<close> draws as many positions as the frame has rows,
  without replacement, and takes them. It draws from a generator: a fresh one made from the
  seed when \<open>random_state\<close> is an integer, numpy's global one when it is \<open>None\<close>. The
  generator is numpy's, so it is a parameter here: \<open>new_rng s\<close> is the state of a fresh
  generator seeded with \<open>s\<close>, \<open>choice g n\<close> the positions that a generator in state \<open>g\<close>
  draws for \<open>n\<close> rows, and \<open>global\<close> the state of the global generator when the cell runs.
\<close>

datatype random_state = Unseeded | Seed nat

definition sample ::
  "(nat \<Rightarrow> 'g) \<Rightarrow> ('g \<Rightarrow> nat \<Rightarrow> nat list) \<Rightarrow> 'g \<Rightarrow> random_state \<Rightarrow> dataframe
     \<Rightarrow> exn + dataframe" where
  "sample new_rng choice global rs df =
     take_rows (choice (case rs of Unseeded \<Rightarrow> global | Seed s \<Rightarrow> new_rng s) (nrows df)) df"

subsection \<open>Splitting\<close>

text \<open>
  \<open>np.split(ary, indices)\<close> cuts along the rows at the given positions: with the division
  points \<open>[0] + indices + [len(ary)]\<close>, section \<open>i\<close> is the Python slice from point \<open>i\<close> to
  point \<open>i + 1\<close>. A slice between positions that are out of order is empty.
\<close>

definition py_slice :: "nat \<Rightarrow> nat \<Rightarrow> 'a list \<Rightarrow> 'a list" where
  "py_slice st en xs = drop st (take en xs)"

fun slice_col :: "nat \<Rightarrow> nat \<Rightarrow> column \<Rightarrow> column" where
  "slice_col st en (IntCol xs) = IntCol (py_slice st en xs)"
| "slice_col st en (FloatCol xs) = FloatCol (py_slice st en xs)"
| "slice_col st en (ObjectCol xs) = ObjectCol (py_slice st en xs)"

definition slice_rows :: "nat \<Rightarrow> nat \<Rightarrow> dataframe \<Rightarrow> dataframe" where
  "slice_rows st en df =
     \<lparr>index = py_slice st en (index df),
      columns = map (\<lambda>(l, c). (l, slice_col st en c)) (columns df)\<rparr>"

definition np_split :: "dataframe \<Rightarrow> nat list \<Rightarrow> dataframe list" where
  "np_split df indices =
     (let div_points = [0] @ indices @ [nrows df]
      in map (\<lambda>i. slice_rows (div_points ! i) (div_points ! Suc i) df)
           [0..<length indices + 1])"

subsection \<open>The cut points\<close>

text \<open>
  \<open>int(0.7 * n)\<close> is computed in binary floating point: \<open>n\<close> is converted to a double, the
  product is rounded to a double, and \<open>int\<close> drops the fraction. A double has 53
  significant bits and rounding is to the nearest, ties to even. The literals are the
  doubles \<open>0.7 = 6305039478318694 / 2^53\<close> and \<open>0.9 = 8106479329266893 / 2^53\<close>. With
  \<open>m / 2^53\<close> for the literal, the exact product is \<open>m * float(n) / 2^53\<close>, and rounding it
  to 53 significant bits is rounding its numerator. The result differs from
  \<open>\<lfloor>7 * n / 10\<rfloor>\<close>: for 90 rows the first cut point is 62. The exponent range plays no
  part, since \<open>len\<close> is below \<open>2^63\<close>.
\<close>

fun bitlen :: "nat \<Rightarrow> nat" where
  "bitlen n = (if n = 0 then 0 else Suc (bitlen (n div 2)))"

declare bitlen.simps [simp del]

text \<open>The integer nearest to \<open>p / 2^s\<close>, ties to even, for \<open>s > 0\<close>.\<close>

definition round_half_even :: "nat \<Rightarrow> nat \<Rightarrow> nat" where
  "round_half_even p s =
     (let q = p div 2 ^ s; r = p mod 2 ^ s; h = 2 ^ (s - 1)
      in if r < h then q else if h < r then q + 1 else if even q then q else q + 1)"

text \<open>The number with at most 53 significant bits nearest to \<open>p\<close>.\<close>

definition round53 :: "nat \<Rightarrow> nat" where
  "round53 p =
     (if bitlen p \<le> 53 then p
      else let s = bitlen p - 53 in round_half_even p s * 2 ^ s)"

text \<open>\<open>int(c * n)\<close> for the double \<open>c = m / 2^53\<close>.\<close>

definition int_of_product :: "nat \<Rightarrow> nat \<Rightarrow> nat" where
  "int_of_product m n = round53 (m * round53 n) div 2 ^ 53"

definition float_0_7 :: nat where
  "float_0_7 = 6305039478318694"

definition float_0_9 :: nat where
  "float_0_9 = 8106479329266893"

subsection \<open>The statement\<close>

text \<open>The unpacking into three names raises \<open>ValueError\<close> unless there are three sections.\<close>

definition shuffle_split ::
  "(nat \<Rightarrow> 'g) \<Rightarrow> ('g \<Rightarrow> nat \<Rightarrow> nat list) \<Rightarrow> 'g \<Rightarrow> dataframe \<Rightarrow>
     exn + dataframe \<times> dataframe \<times> dataframe" where
  "shuffle_split new_rng choice global df_model_data =
     (case sample new_rng choice global (Seed 1729) df_model_data of
        Inl e \<Rightarrow> Inl e
      | Inr shuffled \<Rightarrow>
          (case np_split shuffled
                  [int_of_product float_0_7 (nrows df_model_data),
                   int_of_product float_0_9 (nrows df_model_data)] of
             [train_data, validation_data, test_data] \<Rightarrow>
               Inr (train_data, validation_data, test_data)
           | _ \<Rightarrow> Inl (ValueError ''wrong number of values to unpack'')))"

subsection \<open>Runs of the statement\<close>

text \<open>
  Above, the generator is a function: one resolution of what numpy does. Two runs of the
  notebook need not meet the same resolution, so for statements about two runs the
  generator is a relation. \<open>seeded s g\<close>: making a generator from the seed \<open>s\<close> may leave
  it in state \<open>g\<close>. \<open>draws g n locs\<close>: a generator in state \<open>g\<close> may draw the positions
  \<open>locs\<close> for \<open>n\<close> rows. A run of \<open>sample\<close> takes the global generator when there is no
  seed and makes its own when there is one; a run of the statement is a run of its
  \<open>sample\<close> followed by the split, which draws nothing.
\<close>

definition sample_run ::
  "(nat \<Rightarrow> 'g \<Rightarrow> bool) \<Rightarrow> ('g \<Rightarrow> nat \<Rightarrow> nat list \<Rightarrow> bool) \<Rightarrow> 'g \<Rightarrow> random_state \<Rightarrow> dataframe
     \<Rightarrow> exn + dataframe \<Rightarrow> bool" where
  "sample_run seeded draws global rs df r \<longleftrightarrow>
     (\<exists>g locs. (case rs of Unseeded \<Rightarrow> g = global | Seed s \<Rightarrow> seeded s g) \<and>
               draws g (nrows df) locs \<and> r = take_rows locs df)"

definition shuffle_split_run ::
  "(nat \<Rightarrow> 'g \<Rightarrow> bool) \<Rightarrow> ('g \<Rightarrow> nat \<Rightarrow> nat list \<Rightarrow> bool) \<Rightarrow> 'g \<Rightarrow> dataframe \<Rightarrow>
     exn + dataframe \<times> dataframe \<times> dataframe \<Rightarrow> bool" where
  "shuffle_split_run seeded draws global df_model_data r \<longleftrightarrow>
     (\<exists>sampled. sample_run seeded draws global (Seed 1729) df_model_data sampled \<and>
        r = (case sampled of
               Inl e \<Rightarrow> Inl e
             | Inr shuffled \<Rightarrow>
                 (case np_split shuffled
                         [int_of_product float_0_7 (nrows df_model_data),
                          int_of_product float_0_9 (nrows df_model_data)] of
                    [train_data, validation_data, test_data] \<Rightarrow>
                      Inr (train_data, validation_data, test_data)
                  | _ \<Rightarrow> Inl (ValueError ''wrong number of values to unpack''))))"

section \<open>Writing the partitions\<close>

text \<open>
  \<^verbatim>\<open>
  pd.concat([train_data["y_yes"], train_data.drop(["y_no", "y_yes"], axis=1)], axis=1)
    .to_csv("data/train.csv", index=False, header=False)
  \<close>
  and the same for \<open>validation_data\<close> and \<open>test_data\<close>. A CSV file is kept as its records
  in order, a record as its fields in order, a field as the cell it renders: the text of a
  number is not looked at. \<open>to_csv\<close> writes the header record when \<open>header\<close> is set and
  starts every record with the row label when \<open>index\<close> is set.
\<close>

datatype csv_record = Header "string list" | Row "cell list"

definition to_csv :: "dataframe \<Rightarrow> bool \<Rightarrow> bool \<Rightarrow> csv_record list" where
  "to_csv df with_index header =
     (if header then [Header ((if with_index then [''''] else []) @ labels df)] else []) @
     map (\<lambda>i. Row ((if with_index then [IntV (int (index df ! i))] else []) @ row_cells df i))
       [0..<nrows df]"

text \<open>
  \<open>pd.concat([selected, frame], axis=1)\<close> of the columns that \<open>df[l]\<close> selected and a frame
  with the same index: the selected columns, then the columns of the frame.
\<close>

definition concat_axis1 :: "(string \<times> column) list \<Rightarrow> dataframe \<Rightarrow> dataframe" where
  "concat_axis1 selected df = df\<lparr>columns := selected @ columns df\<rparr>"

definition target_first :: "dataframe \<Rightarrow> exn + dataframe" where
  "target_first d =
     (case getitem_all d ''y_yes'' of
        Inl e \<Rightarrow> Inl e
      | Inr y \<Rightarrow>
          (case drop_columns d [''y_no'', ''y_yes''] of
             Inl e \<Rightarrow> Inl e
           | Inr rest \<Rightarrow> Inr (concat_axis1 y rest)))"

text \<open>The files on disk: the content at each path.\<close>

type_synonym files = "string \<rightharpoonup> csv_record list"

definition write_csv :: "string \<Rightarrow> dataframe \<Rightarrow> files \<Rightarrow> exn + files" where
  "write_csv path d fs =
     (case target_first d of
        Inl e \<Rightarrow> Inl e
      | Inr f \<Rightarrow> Inr (fs(path \<mapsto> to_csv f False False)))"

text \<open>
  The three statements in order. A statement that raises ends the cell; the files written
  before it stay.
\<close>

definition create_csv_files ::
  "dataframe \<times> dataframe \<times> dataframe \<Rightarrow> files \<Rightarrow> exn \<times> files + files" where
  "create_csv_files parts fs =
     (case parts of (train_data, validation_data, test_data) \<Rightarrow>
       (case write_csv ''data/train.csv'' train_data fs of
          Inl e \<Rightarrow> Inl (e, fs)
        | Inr fs1 \<Rightarrow>
       (case write_csv ''data/validation.csv'' validation_data fs1 of
          Inl e \<Rightarrow> Inl (e, fs1)
        | Inr fs2 \<Rightarrow>
       (case write_csv ''data/test.csv'' test_data fs2 of
          Inl e \<Rightarrow> Inl (e, fs2)
        | Inr fs3 \<Rightarrow> Inr fs3))))"

definition final_files :: "exn \<times> files + files \<Rightarrow> files" where
  "final_files r = (case r of Inl (e, fs) \<Rightarrow> fs | Inr fs \<Rightarrow> fs)"

text \<open>
  What a written file is expected to hold, said without the writer. The columns written
  are the columns labelled \<open>y_yes\<close>, then every column labelled neither \<open>y_no\<close> nor
  \<open>y_yes\<close>, in the order of the partition. The records are the rows of the partition in
  order and nothing else, each with its entries in the columns written.
\<close>

definition written_columns :: "dataframe \<Rightarrow> (string \<times> column) list" where
  "written_columns d =
     filter (\<lambda>(l, c). l = ''y_yes'') (columns d) @
     filter (\<lambda>(l, c). l \<noteq> ''y_no'' \<and> l \<noteq> ''y_yes'') (columns d)"

definition written_records :: "dataframe \<Rightarrow> csv_record list" where
  "written_records d =
     map (\<lambda>i. Row (map (\<lambda>(l, c). cells c ! i) (written_columns d))) [0..<nrows d]"

definition target_first_records :: "dataframe \<Rightarrow> csv_record list \<Rightarrow> bool" where
  "target_first_records d recs \<longleftrightarrow>
     ''y_yes'' \<in> set (labels d) \<and> ''y_no'' \<in> set (labels d) \<and> recs = written_records d"

text \<open>
  \<open>written_ok before after path d\<close>: the file at \<open>path\<close> is as it was before the cell, or
  it holds the target-first records of \<open>d\<close>.
\<close>

definition written_ok :: "files \<Rightarrow> files \<Rightarrow> string \<Rightarrow> dataframe \<Rightarrow> bool" where
  "written_ok before after path d \<longleftrightarrow>
     after path = before path \<or> (\<exists>recs. after path = Some recs \<and> target_first_records d recs)"

section \<open>Example tables\<close>

text \<open>Two rows with the columns the transforms touch, and what the transforms make of them.\<close>

definition bank_rows :: dataframe where
  "bank_rows = \<lparr>index = [0, 1],
     columns = [(''age'', IntCol [56, 37]),
                (''job'', ObjectCol [Some ''retired'', Some ''admin.'']),
                (''duration'', IntCol [261, 149]),
                (''pdays'', IntCol [999, 6]),
                (''emp.var.rate'', FloatCol [Some (11 / 10), Some (- 18 / 10)]),
                (''cons.price.idx'', FloatCol [Some (93994 / 1000), Some (92893 / 1000)]),
                (''cons.conf.idx'', FloatCol [Some (- 364 / 10), Some (- 462 / 10)]),
                (''euribor3m'', FloatCol [Some (4857 / 1000), Some (1313 / 1000)]),
                (''nr.employed'', FloatCol [Some 5191, Some (50991 / 10)]),
                (''y'', ObjectCol [Some ''no'', Some ''yes''])]\<rparr>"

definition model_rows :: dataframe where
  "model_rows = \<lparr>index = [0, 1],
     columns = [(''age'', IntCol [56, 37]),
                (''pdays'', IntCol [999, 6]),
                (''no_previous_contact'', IntCol [1, 0]),
                (''not_working'', IntCol [1, 0]),
                (''job_admin.'', IntCol [0, 1]),
                (''job_retired'', IntCol [1, 0]),
                (''y_no'', IntCol [1, 0]),
                (''y_yes'', IntCol [0, 1])]\<rparr>"

text \<open>A target with a third value, and what the encoding makes of it.\<close>

definition three_valued :: dataframe where
  "three_valued = \<lparr>index = [0, 1, 2],
     columns = [(''age'', IntCol [56, 37, 40]),
                (''y'', ObjectCol [Some ''no'', Some ''yes'', Some ''unknown''])]\<rparr>"

definition three_valued_model :: dataframe where
  "three_valued_model = \<lparr>index = [0, 1, 2],
     columns = [(''age'', IntCol [56, 37, 40]),
                (''y_no'', IntCol [1, 0, 0]),
                (''y_unknown'', IntCol [0, 0, 1]),
                (''y_yes'', IntCol [0, 1, 0])]\<rparr>"

definition three_rows :: dataframe where
  "three_rows = \<lparr>index = [0, 1, 2],
     columns = [(''age'', IntCol [56, 37, 40]),
                (''y_no'', IntCol [1, 0, 1]),
                (''y_yes'', IntCol [0, 1, 0])]\<rparr>"

section \<open>Properties of the waiting loop\<close>

lemma iterations_Suc: "iterations (Suc n) = iterations n @ [Describe, Print ''-'', Sleep 60]"
  unfolding iterations_def by (induction n) simp_all

lemma iterations_unroll:
  "[Describe, Print ''-'', Sleep 60] @ iterations k = iterations (Suc k)"
  by (simp add: iterations_def)

lemma hpo_state_same: "hpo_state st = v \<Longrightarrow> st\<lparr>hpo_state := v\<rparr> = st"
  by (cases st) simp

text \<open>While the source answers \<open>InProgress\<close> the loop only goes round.\<close>

lemma poll_loop_skip:
  assumes "hpo_state st = ''InProgress''"
    and "\<forall>i<m. src (calls st + i) = Inr ''InProgress''"
  shows "poll_loop src st =
         poll_loop src (st\<lparr>calls := calls st + m, effects := effects st @ iterations m\<rparr>)"
  using assms
proof (induction m)
  case 0
  then show ?case by (simp add: iterations_def)
next
  case (Suc m)
  let ?st = "st\<lparr>calls := calls st + m, effects := effects st @ iterations m\<rparr>"
  have "poll_loop src st = poll_loop src ?st" using Suc by simp
  also have "\<dots> = poll_loop src (?st\<lparr>hpo_state := ''InProgress'', calls := Suc (calls ?st),
                 effects := effects ?st @ [Describe, Print ''-'', Sleep 60]\<rparr>)"
    using Suc.prems by (subst poll_loop.simps) simp
  also have "\<dots> = poll_loop src
      (st\<lparr>calls := calls st + Suc m, effects := effects st @ iterations (Suc m)\<rparr>)"
    using Suc.prems(1) by (simp add: iterations_Suc hpo_state_same)
  finally show ?case .
qed

lemma poll_loop_stops:
  assumes "hpo_state st = ''InProgress''"
    and "\<forall>i<m. src (calls st + i) = Inr ''InProgress''"
    and "src (calls st + m) = Inr t" and "t \<noteq> ''InProgress''"
  shows "poll_loop src st =
         Some (Inr (st\<lparr>hpo_state := t, calls := calls st + Suc m,
                       effects := effects st @ iterations (Suc m)\<rparr>))"
proof -
  let ?st = "st\<lparr>calls := calls st + m, effects := effects st @ iterations m\<rparr>"
  have "poll_loop src st = poll_loop src ?st" using assms poll_loop_skip by blast
  also have "\<dots> = poll_loop src (?st\<lparr>hpo_state := t, calls := Suc (calls ?st),
                 effects := effects ?st @ [Describe, Print ''-'', Sleep 60]\<rparr>)"
    using assms by (subst poll_loop.simps) simp
  also have "\<dots> = Some (Inr (?st\<lparr>hpo_state := t, calls := Suc (calls ?st),
                 effects := effects ?st @ [Describe, Print ''-'', Sleep 60]\<rparr>))"
    using assms by (subst poll_loop.simps) simp
  finally show ?thesis by (simp add: iterations_Suc)
qed

lemma poll_loop_raises:
  assumes "hpo_state st = ''InProgress''"
    and "\<forall>i<m. src (calls st + i) = Inr ''InProgress''"
    and "src (calls st + m) = Inl e"
  shows "poll_loop src st =
         Some (Inl (e, st\<lparr>calls := calls st + Suc m,
                       effects := effects st @ iterations m @ [Describe]\<rparr>))"
proof -
  let ?st = "st\<lparr>calls := calls st + m, effects := effects st @ iterations m\<rparr>"
  have "poll_loop src st = poll_loop src ?st" using assms poll_loop_skip by blast
  also have "\<dots> = Some (Inl (e, ?st\<lparr>calls := Suc (calls ?st), effects := effects ?st @ [Describe]\<rparr>))"
    using assms by (subst poll_loop.simps) simp
  finally show ?thesis by simp
qed

lemma poll_loop_ends_at:
  assumes "hpo_state st = ''InProgress''" and "ends_at src st m r"
  shows "poll_loop src st = Some r"
proof (cases "src (calls st + m)")
  case (Inl e)
  with assms poll_loop_raises[of st m src e] show ?thesis by (simp add: ends_at_def)
next
  case (Inr t)
  with assms poll_loop_stops[of st m src t] show ?thesis by (simp add: ends_at_def)
qed

lemma ends_at_later:
  assumes "src (calls st) = Inr ''InProgress''" and ip: "hpo_state st = ''InProgress''"
    and "ends_at src (st\<lparr>hpo_state := ''InProgress'', calls := Suc (calls st),
                 effects := effects st @ [Describe, Print ''-'', Sleep 60]\<rparr>) m r"
  shows "ends_at src st (Suc m) r"
proof -
  have "src (calls st + i) = Inr ''InProgress''" if "i < Suc m" for i
  proof (cases i)
    case 0 with assms(1) show ?thesis by simp
  next
    case (Suc j) with that assms(3) show ?thesis by (simp add: ends_at_def)
  qed
  moreover have "iterations (Suc m) = [Describe, Print ''-'', Sleep 60] @ iterations m"
    "iterations (Suc (Suc m)) = [Describe, Print ''-'', Sleep 60] @ iterations (Suc m)"
    by (simp_all only: iterations_unroll)
  moreover have "\<And>c l. st\<lparr>hpo_state := ''InProgress'', calls := c, effects := l\<rparr> =
      st\<lparr>calls := c, effects := l\<rparr>"
    using ip by (cases st) simp
  ultimately show ?thesis using assms(3)
    by (auto simp: ends_at_def split: sum.splits)
qed

text \<open>
  Conversely, every result of the loop has that shape: by fixpoint induction on the loop.
\<close>

lemma poll_loop_result:
  assumes "poll_loop src st = Some r"
  shows "if hpo_state st = ''InProgress'' then (\<exists>m. ends_at src st m r) else r = Inr st"
  using assms
proof (induction src st r rule: poll_loop.raw_induct[rotated, consumes 1])
  case (1 poll src st r)
  show ?case
  proof (cases "hpo_state st = ''InProgress''")
    case False
    with 1(2) show ?thesis by simp
  next
    case True
    show ?thesis
    proof (cases "src (calls st)")
      case (Inl e)
      with True 1(2) have "ends_at src st 0 r"
        by (auto simp: ends_at_def iterations_def)
      with True show ?thesis by auto
    next
      case (Inr s)
      let ?st' = "st\<lparr>hpo_state := s, calls := Suc (calls st),
                 effects := effects st @ [Describe, Print ''-'', Sleep 60]\<rparr>"
      from True Inr 1(2) have rec: "poll src ?st' = Some r" by simp
      note IH = 1(1)[OF rec]
      show ?thesis
      proof (cases "s = ''InProgress''")
        case False
        with IH have "r = Inr ?st'" by simp
        with Inr False have "ends_at src st 0 r"
          by (simp add: ends_at_def iterations_def)
        with True show ?thesis by auto
      next
        case sp: True
        with IH obtain m where "ends_at src ?st' m r" by auto
        with Inr sp True have "ends_at src st (Suc m) r"
          using ends_at_later[of src st m r] by simp
        with True show ?thesis by auto
      qed
    qed
  qed
qed

lemma poll_loop_forever:
  assumes "\<forall>i. src i = Inr ''InProgress''" and "hpo_state st = ''InProgress''"
  shows "poll_loop src st = None"
proof (cases "poll_loop src st")
  case None then show ?thesis .
next
  case (Some r)
  from poll_loop_result[OF Some] assms show ?thesis by (auto simp: ends_at_def)
qed

text \<open>What the whole cell returns, read off the shape of the loop's result.\<close>

lemma wait_for_hpo_result:
  assumes "wait_for_hpo src = Some r"
  shows "\<exists>m. (\<forall>i<m. src i = Inr ''InProgress'') \<and>
     ((\<exists>t. src m = Inr t \<and> t \<noteq> ''InProgress'' \<and>
           r = Inr \<lparr>hpo_state = t, calls = Suc m,
                    effects = iterations (Suc m) @
                      [Print (CHR 0x0A # ''HPO state: '' @ t @ [CHR 0x0A])]\<rparr>) \<or>
      (\<exists>e. src m = Inl e \<and>
           r = Inl (e, \<lparr>hpo_state = ''InProgress'', calls = Suc m,
                         effects = iterations m @ [Describe]\<rparr>)))"
proof -
  let ?st = "\<lparr>hpo_state = ''InProgress'', calls = 0, effects = []\<rparr>"
  from assms obtain r0 where r0: "poll_loop src ?st = Some r0"
    by (auto simp: wait_for_hpo_def split: option.splits)
  from poll_loop_result[OF r0] obtain m where m: "ends_at src ?st m r0" by auto
  then have all: "\<forall>i<m. src i = Inr ''InProgress''" by (simp add: ends_at_def)
  show ?thesis
  proof (cases "src m")
    case (Inl e)
    with m have "r0 = Inl (e, \<lparr>hpo_state = ''InProgress'', calls = Suc m,
                                 effects = iterations m @ [Describe]\<rparr>)"
      by (simp add: ends_at_def)
    with assms r0 have "r = Inl (e, \<lparr>hpo_state = ''InProgress'', calls = Suc m,
                                 effects = iterations m @ [Describe]\<rparr>)"
      by (simp add: wait_for_hpo_def)
    with all Inl show ?thesis by blast
  next
    case (Inr t)
    with m have t: "t \<noteq> ''InProgress''" and
      "r0 = Inr \<lparr>hpo_state = t, calls = Suc m, effects = iterations (Suc m)\<rparr>"
      by (simp_all add: ends_at_def)
    with assms r0 have "r = Inr \<lparr>hpo_state = t, calls = Suc m,
                          effects = iterations (Suc m) @
                            [Print (CHR 0x0A # ''HPO state: '' @ t @ [CHR 0x0A])]\<rparr>"
      by (simp add: wait_for_hpo_def)
    with all Inr t show ?thesis by blast
  qed
qed

lemma wait_for_hpo_Inr:
  assumes "wait_for_hpo src = Some (Inr st)"
  obtains m t where "\<forall>i<m. src i = Inr ''InProgress''" and "src m = Inr t"
    and "t \<noteq> ''InProgress''"
    and "st = \<lparr>hpo_state = t, calls = Suc m,
               effects = iterations (Suc m) @
                 [Print (CHR 0x0A # ''HPO state: '' @ t @ [CHR 0x0A])]\<rparr>"
proof -
  from wait_for_hpo_result[OF assms] obtain m where
    m: "\<forall>i<m. src i = Inr ''InProgress''" and
    d: "(\<exists>t. src m = Inr t \<and> t \<noteq> ''InProgress'' \<and>
           Inr st = (Inr \<lparr>hpo_state = t, calls = Suc m,
                    effects = iterations (Suc m) @
                      [Print (CHR 0x0A # ''HPO state: '' @ t @ [CHR 0x0A])]\<rparr>
                :: exn \<times> poll_state + poll_state)) \<or>
      (\<exists>e. src m = Inl e \<and>
           Inr st = Inl (e, \<lparr>hpo_state = ''InProgress'', calls = Suc m,
                         effects = iterations m @ [Describe]\<rparr>))"
    by blast
  from d show thesis
  proof (elim disjE exE conjE)
    fix t
    assume "src m = Inr t" "t \<noteq> ''InProgress''"
      and "Inr st = (Inr \<lparr>hpo_state = t, calls = Suc m,
                    effects = iterations (Suc m) @
                      [Print (CHR 0x0A # ''HPO state: '' @ t @ [CHR 0x0A])]\<rparr>
                :: exn \<times> poll_state + poll_state)"
    then show thesis using m by (intro that[of m t]) simp_all
  next
    fix e
    assume "Inr st = Inl (e, \<lparr>hpo_state = ''InProgress'', calls = Suc m,
                         effects = iterations m @ [Describe]\<rparr>)"
    then show thesis by simp
  qed
qed

lemma wait_for_hpo_Inl:
  assumes "wait_for_hpo src = Some (Inl (e, st))"
  obtains m where "\<forall>i<m. src i = Inr ''InProgress''" and "src m = Inl e"
    and "st = \<lparr>hpo_state = ''InProgress'', calls = Suc m,
               effects = iterations m @ [Describe]\<rparr>"
proof -
  from wait_for_hpo_result[OF assms] obtain m where
    m: "\<forall>i<m. src i = Inr ''InProgress''" and
    d: "(\<exists>t. src m = Inr t \<and> t \<noteq> ''InProgress'' \<and>
           Inl (e, st) = (Inr \<lparr>hpo_state = t, calls = Suc m,
                    effects = iterations (Suc m) @
                      [Print (CHR 0x0A # ''HPO state: '' @ t @ [CHR 0x0A])]\<rparr>
                :: exn \<times> poll_state + poll_state)) \<or>
      (\<exists>e'. src m = Inl e' \<and>
           Inl (e, st) = Inl (e', \<lparr>hpo_state = ''InProgress'', calls = Suc m,
                         effects = iterations m @ [Describe]\<rparr>))"
    by blast
  from d show thesis
  proof (elim disjE exE conjE)
    fix t
    assume "Inl (e, st) = (Inr \<lparr>hpo_state = t, calls = Suc m,
                    effects = iterations (Suc m) @
                      [Print (CHR 0x0A # ''HPO state: '' @ t @ [CHR 0x0A])]\<rparr>
                :: exn \<times> poll_state + poll_state)"
    then show thesis by simp
  next
    fix e'
    assume "src m = Inl e'"
      and "Inl (e, st) = Inl (e', \<lparr>hpo_state = ''InProgress'', calls = Suc m,
                         effects = iterations m @ [Describe]\<rparr>)"
    then show thesis using m by (intro that[of m]) simp_all
  qed
qed

lemma wait_for_hpo_raises:
  assumes "\<forall>i<k. src i = Inr ''InProgress''" and "src k = Inl e"
  shows "wait_for_hpo src =
     Some (Inl (e, \<lparr>hpo_state = ''InProgress'', calls = Suc k, effects = iterations k @ [Describe]\<rparr>))"
proof -
  let ?st = "\<lparr>hpo_state = ''InProgress'', calls = 0, effects = []\<rparr>"
  have "poll_loop src ?st = Some (Inl (e, ?st\<lparr>calls := calls ?st + Suc k,
                       effects := effects ?st @ iterations k @ [Describe]\<rparr>))"
    using assms by (intro poll_loop_raises) simp_all
  then show ?thesis by (simp add: wait_for_hpo_def)
qed

lemma count_iterations:
  "count_list (iterations n) Describe = n" "count_list (iterations n) (Sleep 60) = n"
  by (induction n) (simp_all add: iterations_Suc, simp_all add: iterations_def)

text \<open>
  C1. For a status source that answers \<open>InProgress\<close> at its first \<open>M\<close> calls and a terminal
  value \<open>t\<close> at every later call, the cell makes exactly \<open>M + 1\<close> calls and leaves \<open>t\<close> in
  \<open>hpo_state\<close>, which its last line prints.
\<close>

theorem poll_makes_M_plus_1_queries:
  assumes "\<forall>i<M. src i = Inr ''InProgress''"
    and "\<forall>i\<ge>M. src i = Inr t"
    and "t \<noteq> ''InProgress''"
  shows "wait_for_hpo src =
         Some (Inr \<lparr>hpo_state = t, calls = M + 1,
                    effects = iterations (M + 1) @
                      [Print (CHR 0x0A # ''HPO state: '' @ t @ [CHR 0x0A])]\<rparr>)"
proof -
  let ?st = "\<lparr>hpo_state = ''InProgress'', calls = 0, effects = []\<rparr>"
  have "src (calls ?st + M) = Inr t" using assms(2) by simp
  with assms(1,3) have "poll_loop src ?st =
    Some (Inr (?st\<lparr>hpo_state := t, calls := calls ?st + Suc M,
                       effects := effects ?st @ iterations (Suc M)\<rparr>))"
    by (intro poll_loop_stops) simp_all
  then show ?thesis by (simp add: wait_for_hpo_def)
qed

theorem poll_makes_M_plus_1_queries_witness:
  "wait_for_hpo (\<lambda>n. if n < 2 then Inr ''InProgress'' else Inr ''Completed'') =
     Some (Inr \<lparr>hpo_state = ''Completed'', calls = 3,
        effects = [Describe, Print ''-'', Sleep 60, Describe, Print ''-'', Sleep 60,
               Describe, Print ''-'', Sleep 60,
               Print (CHR 0x0A # ''HPO state: Completed'' @ [CHR 0x0A])]\<rparr>)"
  using poll_makes_M_plus_1_queries
    [of 2 "\<lambda>n. if n < 2 then Inr ''InProgress'' else Inr ''Completed''" "''Completed''"]
  by (simp add: iterations_def eval_nat_numeral)

text \<open>
  C2, as stated, fails: the loop tests for \<open>InProgress\<close> only, so a source whose first
  answer is \<open>Pending\<close> makes the cell leave the loop after one call with \<open>Pending\<close> in
  \<open>hpo_state\<close>.
\<close>

theorem poll_exits_on_Pending:
  "wait_for_hpo (const_source ''Pending'') =
     Some (Inr \<lparr>hpo_state = ''Pending'', calls = 1,
        effects = [Describe, Print ''-'', Sleep 60,
               Print (CHR 0x0A # ''HPO state: Pending'' @ [CHR 0x0A])]\<rparr>)"
  by code_simp

text \<open>
  C2, amended. Whatever statuses the source gives, the cell leaves the loop exactly when
  the source gives an answer other than \<open>InProgress\<close>, and it does so at the first such
  answer, after one call more than the answers \<open>InProgress\<close> before it. The value it
  finishes with is that answer: it is never \<open>InProgress\<close>, and it is \<open>Pending\<close> when
  \<open>Pending\<close> is the first other answer.
\<close>

theorem poll_exit_status:
  "wait_for_hpo src = Some (Inr st) \<longleftrightarrow>
     (\<exists>m t. (\<forall>i<m. src i = Inr ''InProgress'') \<and> src m = Inr t \<and> t \<noteq> ''InProgress'' \<and>
        st = \<lparr>hpo_state = t, calls = Suc m,
              effects = iterations (Suc m) @
                [Print (CHR 0x0A # ''HPO state: '' @ t @ [CHR 0x0A])]\<rparr>)"
proof
  assume "wait_for_hpo src = Some (Inr st)"
  then obtain m t where "\<forall>i<m. src i = Inr ''InProgress''" and "src m = Inr t"
    and "t \<noteq> ''InProgress''"
    and "st = \<lparr>hpo_state = t, calls = Suc m,
               effects = iterations (Suc m) @
                 [Print (CHR 0x0A # ''HPO state: '' @ t @ [CHR 0x0A])]\<rparr>"
    by (rule wait_for_hpo_Inr)
  then show "\<exists>m t. (\<forall>i<m. src i = Inr ''InProgress'') \<and> src m = Inr t \<and> t \<noteq> ''InProgress'' \<and>
        st = \<lparr>hpo_state = t, calls = Suc m,
              effects = iterations (Suc m) @
                [Print (CHR 0x0A # ''HPO state: '' @ t @ [CHR 0x0A])]\<rparr>"
    by blast
next
  assume "\<exists>m t. (\<forall>i<m. src i = Inr ''InProgress'') \<and> src m = Inr t \<and> t \<noteq> ''InProgress'' \<and>
        st = \<lparr>hpo_state = t, calls = Suc m,
              effects = iterations (Suc m) @
                [Print (CHR 0x0A # ''HPO state: '' @ t @ [CHR 0x0A])]\<rparr>"
  then obtain m t where m: "\<forall>i<m. src i = Inr ''InProgress''" and t: "src m = Inr t"
    and ne: "t \<noteq> ''InProgress''"
    and st: "st = \<lparr>hpo_state = t, calls = Suc m,
               effects = iterations (Suc m) @
                 [Print (CHR 0x0A # ''HPO state: '' @ t @ [CHR 0x0A])]\<rparr>"
    by blast
  let ?st = "\<lparr>hpo_state = ''InProgress'', calls = 0, effects = []\<rparr>"
  have "poll_loop src ?st =
    Some (Inr (?st\<lparr>hpo_state := t, calls := calls ?st + Suc m,
                       effects := effects ?st @ iterations (Suc m)\<rparr>))"
    using m t ne by (intro poll_loop_stops) simp_all
  then show "wait_for_hpo src = Some (Inr st)" by (simp add: wait_for_hpo_def st)
qed

theorem poll_exit_status_witness:
  "wait_for_hpo (\<lambda>n. if n < 1 then Inr ''InProgress'' else Inr ''Pending'') =
     Some (Inr \<lparr>hpo_state = ''Pending'', calls = 2,
        effects = [Describe, Print ''-'', Sleep 60, Describe, Print ''-'', Sleep 60,
               Print (CHR 0x0A # ''HPO state: Pending'' @ [CHR 0x0A])]\<rparr>)"
proof -
  let ?src = "\<lambda>n::nat. if n < 1 then Inr ''InProgress'' else (Inr ''Pending'' :: exn + string)"
  let ?st = "\<lparr>hpo_state = ''Pending'', calls = 2,
        effects = [Describe, Print ''-'', Sleep 60, Describe, Print ''-'', Sleep 60,
               Print (CHR 0x0A # ''HPO state: Pending'' @ [CHR 0x0A])]\<rparr>"
  have "\<exists>m t. (\<forall>i<m. ?src i = Inr ''InProgress'') \<and> ?src m = Inr t \<and> t \<noteq> ''InProgress'' \<and>
        ?st = \<lparr>hpo_state = t, calls = Suc m,
              effects = iterations (Suc m) @
                [Print (CHR 0x0A # ''HPO state: '' @ t @ [CHR 0x0A])]\<rparr>"
    by (intro exI[of _ 1] exI[of _ "''Pending''"]) (simp add: iterations_def eval_nat_numeral)
  then show ?thesis by (rule poll_exit_status[THEN iffD2])
qed

text \<open>
  C3, as stated, fails in its last clause: a source that answers \<open>InProgress\<close> forever
  never raises, and the cell never completes.
\<close>

theorem poll_never_ends_without_failure:
  "wait_for_hpo (const_source ''InProgress'') = None"
proof -
  have "poll_loop (const_source ''InProgress'')
          \<lparr>hpo_state = ''InProgress'', calls = 0, effects = []\<rparr> = None"
    by (rule poll_loop_forever) (simp_all add: const_source_def)
  then show ?thesis by (simp add: wait_for_hpo_def)
qed

text \<open>
  C3, amended. If a call raises after \<open>k\<close> answers \<open>InProgress\<close>, the cell ends with that
  exception after exactly \<open>k + 1\<close> calls: no retry, no further call, and the raising call
  is followed by neither print nor sleep. And a run that ends, ends with an exception if
  and only if one of the calls it made raised; it ends normally if and only if none did.
\<close>

theorem query_error_propagates:
  "((\<forall>i<k. src i = Inr ''InProgress'') \<and> src k = Inl e \<longrightarrow>
      wait_for_hpo src =
        Some (Inl (e, \<lparr>hpo_state = ''InProgress'', calls = k + 1,
                       effects = iterations k @ [Describe]\<rparr>))) \<and>
   (wait_for_hpo src = Some r \<longrightarrow>
      (isl r \<longleftrightarrow> (\<exists>i<calls (run_state r). isl (src i))) \<and>
      (\<not> isl r \<longleftrightarrow> (\<forall>i<calls (run_state r). \<not> isl (src i))))"
proof (intro conjI impI)
  assume "(\<forall>i<k. src i = Inr ''InProgress'') \<and> src k = Inl e"
  then show "wait_for_hpo src =
        Some (Inl (e, \<lparr>hpo_state = ''InProgress'', calls = k + 1,
                       effects = iterations k @ [Describe]\<rparr>))"
    using wait_for_hpo_raises[of k src e] by simp
next
  assume r: "wait_for_hpo src = Some r"
  show iff: "isl r \<longleftrightarrow> (\<exists>i<calls (run_state r). isl (src i))"
  proof (cases r)
    case (Inl p)
    obtain e st where p: "p = (e, st)" by (cases p)
    from r Inl p obtain m where "src m = Inl e"
      and st: "st = \<lparr>hpo_state = ''InProgress'', calls = Suc m,
               effects = iterations m @ [Describe]\<rparr>"
      by (auto elim: wait_for_hpo_Inl)
    from st have "calls st = Suc m" by simp
    with Inl p \<open>src m = Inl e\<close> show ?thesis by (auto simp: run_state_def)
  next
    case (Inr st)
    from r Inr obtain m t where m: "\<forall>i<m. src i = Inr ''InProgress''" and t: "src m = Inr t"
      and st: "st = \<lparr>hpo_state = t, calls = Suc m,
               effects = iterations (Suc m) @
                 [Print (CHR 0x0A # ''HPO state: '' @ t @ [CHR 0x0A])]\<rparr>"
      by (auto elim: wait_for_hpo_Inr)
    from st have c: "calls st = Suc m" by simp
    have "\<not> isl (src i)" if "i < Suc m" for i
      using that m t by (cases "i = m") auto
    with Inr c show ?thesis by (auto simp: run_state_def)
  qed
  then show "\<not> isl r \<longleftrightarrow> (\<forall>i<calls (run_state r). \<not> isl (src i))" by auto
qed

theorem query_error_propagates_witness:
  "wait_for_hpo (\<lambda>n. if n < 1 then Inr ''InProgress'' else Inl (ClientError ''Throttling'')) =
     Some (Inl (ClientError ''Throttling'',
       \<lparr>hpo_state = ''InProgress'', calls = 2,
          effects = [Describe, Print ''-'', Sleep 60, Describe]\<rparr>))"
  using query_error_propagates
    [where k = 1 and e = "ClientError ''Throttling''"
       and src = "\<lambda>n. if n < 1 then Inr ''InProgress'' else Inl (ClientError ''Throttling'')"]
  by (simp add: iterations_def)

text \<open>
  C10, as stated, fails: when the first call raises, the run has made one status query and
  no sleep.
\<close>

theorem failed_query_is_not_followed_by_sleep:
  "map_option (\<lambda>r. (count_list (run_effects r) Describe, count_list (run_effects r) (Sleep 60)))
     (wait_for_hpo (failing_source (ClientError ''ThrottlingException''))) = Some (1, 0)"
  by code_simp

text \<open>
  C10, amended. In a run that leaves the loop, every status query is followed by the print
  of a dash and a sleep of 60 seconds, the query that first sees a status other than
  \<open>InProgress\<close> included: its effects are that many whole passes and the final print, and
  the sleeps are as many as the queries. In a run that a raising query ends, the raising
  query is followed by nothing: the sleeps are one fewer than the queries.
\<close>

theorem sleeps_and_queries:
  "(wait_for_hpo src = Some (Inr st) \<longrightarrow>
      effects st = iterations (calls st) @
         [Print (CHR 0x0A # ''HPO state: '' @ hpo_state st @ [CHR 0x0A])] \<and>
      count_list (effects st) Describe = calls st \<and>
      count_list (effects st) (Sleep 60) = count_list (effects st) Describe) \<and>
   (wait_for_hpo src = Some (Inl (e, st)) \<longrightarrow>
      effects st = iterations (calls st - 1) @ [Describe] \<and>
      count_list (effects st) Describe = calls st \<and>
      count_list (effects st) (Sleep 60) + 1 = count_list (effects st) Describe)"
proof (intro conjI impI)
  assume r: "wait_for_hpo src = Some (Inr st)"
  then obtain m t where st: "st = \<lparr>hpo_state = t, calls = Suc m,
               effects = iterations (Suc m) @
                 [Print (CHR 0x0A # ''HPO state: '' @ t @ [CHR 0x0A])]\<rparr>"
    by (auto elim: wait_for_hpo_Inr)
  from st have f: "hpo_state st = t" "calls st = Suc m" "effects st = iterations (Suc m) @
                            [Print (CHR 0x0A # ''HPO state: '' @ t @ [CHR 0x0A])]" by simp_all
  from f show "effects st = iterations (calls st) @
         [Print (CHR 0x0A # ''HPO state: '' @ hpo_state st @ [CHR 0x0A])]" by simp
  from f show "count_list (effects st) Describe = calls st"
    by (simp add: count_iterations)
  from f show "count_list (effects st) (Sleep 60) = count_list (effects st) Describe"
    by (simp add: count_iterations)
next
  assume r: "wait_for_hpo src = Some (Inl (e, st))"
  then obtain m where st: "st = \<lparr>hpo_state = ''InProgress'', calls = Suc m,
                                 effects = iterations m @ [Describe]\<rparr>"
    by (auto elim: wait_for_hpo_Inl)
  from st have f: "calls st = Suc m" "effects st = iterations m @ [Describe]" by simp_all
  from f show "effects st = iterations (calls st - 1) @ [Describe]" by simp
  from f show "count_list (effects st) Describe = calls st" by (simp add: count_iterations)
  from f show "count_list (effects st) (Sleep 60) + 1 = count_list (effects st) Describe"
    by (simp add: count_iterations)
qed

theorem sleeps_and_queries_witness:
  "count_list (effects \<lparr>hpo_state = ''Completed'', calls = 2,
        effects = [Describe, Print ''-'', Sleep 60, Describe, Print ''-'', Sleep 60,
               Print (CHR 0x0A # ''HPO state: Completed'' @ [CHR 0x0A])]\<rparr>) (Sleep 60) = 2"
proof -
  have h: "wait_for_hpo (\<lambda>n. if n < 1 then Inr ''InProgress'' else Inr ''Completed'') =
     Some (Inr \<lparr>hpo_state = ''Completed'', calls = 2,
        effects = [Describe, Print ''-'', Sleep 60, Describe, Print ''-'', Sleep 60,
               Print (CHR 0x0A # ''HPO state: Completed'' @ [CHR 0x0A])]\<rparr>)"
    by code_simp
  from sleeps_and_queries
    [where src = "\<lambda>n. if n < 1 then Inr ''InProgress'' else Inr ''Completed''"] h
  show ?thesis by simp
qed

section \<open>Properties of the column transforms\<close>

subsection \<open>Looking columns up\<close>

lemma getitem_Inl_iff: "(\<exists>e. getitem df l = Inl e) \<longleftrightarrow> l \<notin> set (labels df)"
proof (cases "map_of (columns df) l")
  case None
  moreover from None have "l \<notin> fst ` set (columns df)" by (simp add: map_of_eq_None_iff)
  ultimately show ?thesis by (simp add: getitem_def labels_def)
next
  case (Some c)
  then have "l \<in> fst ` set (columns df)" by (metis map_of_eq_None_iff option.distinct(1))
  with Some show ?thesis by (simp add: getitem_def labels_def)
qed

lemma getitem_missing: "l \<notin> set (labels df) \<Longrightarrow> getitem df l = Inl (KeyError [l])"
  by (auto simp: getitem_def labels_def map_of_eq_None_iff split: option.splits)

lemma getitem_present: "l \<in> set (labels df) \<Longrightarrow> \<exists>c. getitem df l = Inr c"
  by (cases "map_of (columns df) l") (auto simp: getitem_def labels_def map_of_eq_None_iff)

lemma getitem_Inr_label: "getitem df l = Inr c \<Longrightarrow> l \<in> set (labels df)"
  using getitem_missing[of l df] by auto

lemma map_of_replace:
  "l \<in> fst ` set xs \<Longrightarrow>
   map_of (map (\<lambda>(l', c'). if l' = l then (l, c) else (l', c')) xs) l = Some c"
  by (induction xs) auto

lemma map_of_replace_other:
  "l' \<noteq> l \<Longrightarrow>
   map_of (map (\<lambda>(k, c'). if k = l then (l, c) else (k, c')) xs) l' = map_of xs l'"
  by (induction xs) auto

lemma getitem_setitem_same: "getitem (setitem df l c) l = Inr c"
proof (cases "l \<in> set (labels df)")
  case True
  then show ?thesis by (simp add: getitem_def setitem_def labels_def map_of_replace)
next
  case False
  then have "map_of (columns df) l = None" by (simp add: labels_def map_of_eq_None_iff)
  with False show ?thesis by (simp add: getitem_def setitem_def map_add_def)
qed

lemma getitem_setitem_other: "l' \<noteq> l \<Longrightarrow> getitem (setitem df l c) l' = getitem df l'"
  by (simp add: getitem_def setitem_def map_of_replace_other map_add_def split: option.splits)

lemma map_fst_replace:
  "map fst (map (\<lambda>(l', c'). if l' = l then (l, c) else (l', c')) xs) = map fst xs"
  by (induction xs) auto

lemma labels_setitem: "set (labels (setitem df l c)) = insert l (set (labels df))"
proof (cases "l \<in> set (labels df)")
  case True
  then have "labels (setitem df l c) = labels df"
    using map_fst_replace[of l c "columns df"] by (simp add: setitem_def labels_def)
  with True show ?thesis by auto
next
  case False
  then show ?thesis by (simp add: setitem_def labels_def)
qed

lemma map_of_filter_keys:
  "l \<notin> S \<Longrightarrow> map_of (filter (\<lambda>(k, c). k \<notin> S) xs) l = map_of xs l"
  by (induction xs) auto

lemma drop_columns_Inr:
  assumes "drop_columns df ls = Inr df'"
  shows "set ls \<subseteq> set (labels df)"
    and "df' = df\<lparr>columns := filter (\<lambda>(l, c). l \<notin> set ls) (columns df)\<rparr>"
  using assms by (auto simp: drop_columns_def Let_def filter_empty_conv split: if_splits)

lemma getitem_drop_columns:
  assumes "drop_columns df ls = Inr df'" and "l \<notin> set ls"
  shows "getitem df' l = getitem df l"
  using drop_columns_Inr(2)[OF assms(1)] assms(2)
  by (simp add: getitem_def map_of_filter_keys)

lemma labels_drop_columns:
  assumes "drop_columns df ls = Inr df'"
  shows "set (labels df') = set (labels df) - set ls"
  using drop_columns_Inr(2)[OF assms] by (auto simp: labels_def)

lemma get_dummies_Inr:
  assumes "get_dummies df = Inr df'"
  shows "df' = df\<lparr>columns := filter (\<lambda>(l, c). \<not> is_object c) (columns df) @
                               concat (map dummies (columns df))\<rparr>"
  using assms by (auto simp: get_dummies_def split: if_splits)

lemma map_of_filter_first:
  "map_of xs l = Some c \<Longrightarrow> P (l, c) \<Longrightarrow> map_of (filter P xs) l = Some c"
  by (induction xs) (auto split: if_splits)

lemma getitem_get_dummies:
  assumes "get_dummies df = Inr df'" and "getitem df l = Inr c" and "\<not> is_object c"
  shows "getitem df' l = Inr c"
proof -
  from assms(2) have "map_of (columns df) l = Some c"
    by (auto simp: getitem_def split: option.splits)
  with assms(3) have "map_of (filter (\<lambda>(l, c). \<not> is_object c) (columns df)) l = Some c"
    by (intro map_of_filter_first) simp_all
  then show ?thesis
    unfolding get_dummies_Inr[OF assms(1)] by (simp add: getitem_def map_add_def)
qed

subsection \<open>The indicator of the sentinel\<close>

lemma eq_scalar_999:
  "eq_scalar c 999 = map is_999 (cells c)"
  by (cases c) simp_all

lemma add_no_previous_contact_Inr:
  assumes "getitem df ''pdays'' = Inr pdays"
  shows "add_no_previous_contact df =
    Inr (setitem df ''no_previous_contact''
          (IntCol (map (\<lambda>v. if is_999 v then 1 else 0) (cells pdays))))"
  using assms by (simp add: add_no_previous_contact_def np_where_def eq_scalar_999 comp_def)

text \<open>
  C5. When the frame has a \<open>pdays\<close> column, the first statement succeeds and leaves a
  column \<open>no_previous_contact\<close> of integers with one entry for each row: 1 in the rows
  whose \<open>pdays\<close> entry equals 999 and 0 in all others. The column reaches \<open>df_model_data\<close>
  unchanged whenever the rest of the cell succeeds.
\<close>

theorem no_previous_contact_indicator:
  assumes "getitem df ''pdays'' = Inr pdays"
  shows "\<exists>df1 nc.
     add_no_previous_contact df = Inr df1 \<and>
     getitem df1 ''no_previous_contact'' = Inr (IntCol nc) \<and>
     length nc = col_len pdays \<and>
     (\<forall>i<col_len pdays. nc ! i = (if is_999 (cells pdays ! i) then 1 else 0)) \<and>
     (\<forall>df'. transform df = Inr df' \<longrightarrow> getitem df' ''no_previous_contact'' = Inr (IntCol nc))"
proof -
  define nc where "nc = map (\<lambda>v. if is_999 v then 1 else (0::int)) (cells pdays)"
  define df1 where "df1 = setitem df ''no_previous_contact'' (IntCol nc)"
  have a: "add_no_previous_contact df = Inr df1"
    using add_no_previous_contact_Inr[OF assms] by (simp add: df1_def nc_def)
  have g1: "getitem df1 ''no_previous_contact'' = Inr (IntCol nc)"
    by (simp add: df1_def getitem_setitem_same)
  have l: "length nc = col_len pdays" by (simp add: nc_def col_len_def)
  have v: "\<forall>i<col_len pdays. nc ! i = (if is_999 (cells pdays ! i) then 1 else 0)"
    by (simp add: nc_def col_len_def)
  have t: "getitem df' ''no_previous_contact'' = Inr (IntCol nc)" if "transform df = Inr df'" for df'
  proof -
    from that a obtain df2 df3 where
      2: "add_not_working df1 = Inr df2" and
      3: "drop_columns df2 unnecessary = Inr df3" and
      4: "get_dummies df3 = Inr df'"
      by (auto simp: transform_def drop_and_encode_def split: sum.splits)
    from 2 obtain c where "df2 = setitem df1 ''not_working'' c"
      by (auto simp: add_not_working_def split: sum.splits)
    then have "getitem df2 ''no_previous_contact'' = Inr (IntCol nc)"
      using g1 by (simp add: getitem_setitem_other)
    then have "getitem df3 ''no_previous_contact'' = Inr (IntCol nc)"
      using getitem_drop_columns[OF 3, of "''no_previous_contact''"]
      by (simp add: unnecessary_def)
    then show ?thesis using getitem_get_dummies[OF 4] by simp
  qed
  from a g1 l v t show ?thesis by blast
qed

theorem no_previous_contact_indicator_witness:
  "\<exists>df1 nc. add_no_previous_contact bank_rows = Inr df1 \<and>
      getitem df1 ''no_previous_contact'' = Inr (IntCol nc) \<and>
      length nc = 2 \<and> nc ! 0 = 1 \<and> nc ! 1 = 0"
proof -
  have h: "getitem bank_rows ''pdays'' = Inr (IntCol [999, 6])" by code_simp
  from no_previous_contact_indicator[OF h] obtain df1 nc where
    "add_no_previous_contact bank_rows = Inr df1"
    "getitem df1 ''no_previous_contact'' = Inr (IntCol nc)"
    "length nc = col_len (IntCol [999, 6])"
    "\<forall>i<col_len (IntCol [999, 6]). nc ! i = (if is_999 (cells (IntCol [999, 6]) ! i) then 1 else 0)"
    by blast
  moreover have "col_len (IntCol [999, 6]) = 2" by (simp add: col_len_def)
  ultimately have "add_no_previous_contact bank_rows = Inr df1 \<and>
      getitem df1 ''no_previous_contact'' = Inr (IntCol nc) \<and>
      length nc = 2 \<and> nc ! 0 = 1 \<and> nc ! 1 = 0" by simp
  then show ?thesis by blast
qed

subsection \<open>One-hot encoding\<close>

lemma set_levels: "set (levels vs) = {v. Some v \<in> set vs}"
proof -
  have "v \<in> the ` {x \<in> set vs. \<exists>y. x = Some y}" if "Some v \<in> set vs" for v
    using that by (intro image_eqI[of _ _ "Some v"]) simp_all
  then show ?thesis by (auto simp: levels_def List.map_filter_def)
qed

lemma distinct_levels: "distinct (levels vs)"
  by (simp add: levels_def)

lemma length_levels: "length (levels vs) = card {v. Some v \<in> set vs}"
  using distinct_card[OF distinct_levels, of vs] by (simp add: set_levels)

lemma sum_indicator:
  "distinct xs \<Longrightarrow>
   sum_list (map (\<lambda>u. if x = Some u then 1 else (0::int)) xs) =
   (case x of None \<Rightarrow> 0 | Some v \<Rightarrow> if v \<in> set xs then 1 else 0)"
  by (induction xs) (auto split: option.splits)

lemma row_sum_dummies_1d:
  assumes "i < length vs"
  shows "row_sum (dummies_1d l vs) i = (if vs ! i = None then 0 else 1)"
proof -
  have "row_sum (dummies_1d l vs) i =
        sum_list (map (\<lambda>u. if vs ! i = Some u then 1 else (0::int)) (levels vs))"
    using assms by (simp add: row_sum_def dummies_1d_def comp_def)
  also have "\<dots> = (case vs ! i of None \<Rightarrow> 0 | Some v \<Rightarrow> if v \<in> set (levels vs) then 1 else 0)"
    by (rule sum_indicator[OF distinct_levels])
  also have "\<dots> = (if vs ! i = None then 0 else 1)"
    using nth_mem[OF assms] by (auto simp: set_levels split: option.splits)
  finally show ?thesis .
qed

lemma no_object_dummies: "(l', c') \<in> set (dummies p) \<Longrightarrow> \<not> is_object c'"
  by (cases p; cases "snd p") (auto simp: dummies_1d_def)

text \<open>
  C6, as stated, fails: a row whose entry is missing has 0 in every indicator of the
  column, so its indicators sum to 0. Here the column \<open>y\<close> has the entries \<open>yes\<close> and
  missing, its one indicator is \<open>y_yes\<close>, and the second row sums to 0.
\<close>

theorem one_hot_missing_value:
  "get_dummies \<lparr>index = [0, 1], columns = [(''y'', ObjectCol [Some ''yes'', None])]\<rparr> =
     Inr \<lparr>index = [0, 1], columns = [(''y_yes'', IntCol [1, 0])]\<rparr> \<and>
   row_sum (dummies_1d ''y'' [Some ''yes'', None]) 1 = 0"
  by code_simp

lemma levels_sorted_list: "levels vs = sorted_list_of_set {v. Some v \<in> set vs}"
proof -
  have "set (List.map_filter id vs) = {v. Some v \<in> set vs}"
    using set_levels[of vs] by (simp add: levels_def)
  then show ?thesis
    using sorted_list_of_set_sort_remdups[of "List.map_filter id vs"] by (simp add: levels_def)
qed

lemma dummies_1d_block: "dummies_1d l vs = one_hot_block l vs"
  by (simp add: dummies_1d_def one_hot_block_def levels_sorted_list)

lemma length_dummies: "length (dummies (l, c)) = n_values c"
  by (cases c) (simp_all add: dummies_1d_def length_levels)

lemma length_concat_dummies:
  "length (concat (map dummies cs)) = sum_list (map (\<lambda>(l, c). n_values c) cs)"
  by (induction cs) (auto simp: length_dummies)

text \<open>
  C6, amended. The encoding keeps the columns that are not of dtype \<open>object\<close> and replaces
  every \<open>object\<close> column, the target \<open>y\<close> included, by its block of indicator columns and
  nothing else: the result is the kept columns, then the blocks in the order of their
  columns, so it has as many columns as were kept plus the distinct values present in
  each encoded column, and no \<open>object\<close> column. The block of a column with \<open>k\<close> distinct
  values present has exactly \<open>k\<close> columns, labelled with the column's label, an underscore
  and the value. In every row whose entry is present the indicators of the block sum
  to 1; in a row whose entry is missing they sum to 0.
\<close>

theorem one_hot_encoding:
  assumes "get_dummies df = Inr df'" and "columns df = xs @ (l, ObjectCol vs) # ys"
  shows "columns df' =
           filter (\<lambda>(l, c). \<not> is_object c) (xs @ ys) @
           concat (map dummies xs) @ one_hot_block l vs @ concat (map dummies ys) \<and>
         length (columns df') =
           length (filter (\<lambda>(l, c). \<not> is_object c) (columns df)) +
           sum_list (map (\<lambda>(l, c). n_values c) (columns df)) \<and>
         (\<forall>c' \<in> snd ` set (columns df'). \<not> is_object c') \<and>
         length (one_hot_block l vs) = card {v. Some v \<in> set vs} \<and>
         map fst (one_hot_block l vs) =
           map (\<lambda>v. l @ ''_'' @ v) (sorted_list_of_set {v. Some v \<in> set vs}) \<and>
         (\<forall>i<length vs. row_sum (one_hot_block l vs) i = (if vs ! i = None then 0 else 1))"
proof -
  have cols: "columns df' = filter (\<lambda>(l, c). \<not> is_object c) (columns df) @
                               concat (map dummies (columns df))"
    unfolding get_dummies_Inr[OF assms(1)] by simp
  have 1: "columns df' =
           filter (\<lambda>(l, c). \<not> is_object c) (xs @ ys) @
           concat (map dummies xs) @ one_hot_block l vs @ concat (map dummies ys)"
    unfolding cols assms(2) by (simp add: dummies_1d_block)
  have 2: "length (columns df') =
           length (filter (\<lambda>(l, c). \<not> is_object c) (columns df)) +
           sum_list (map (\<lambda>(l, c). n_values c) (columns df))"
    unfolding cols by (simp add: length_concat_dummies)
  have 3: "\<forall>c' \<in> snd ` set (columns df'). \<not> is_object c'"
  proof
    fix c' assume "c' \<in> snd ` set (columns df')"
    then obtain l' where "(l', c') \<in> set (columns df')" by auto
    then show "\<not> is_object c'"
      unfolding cols using no_object_dummies by auto
  qed
  have 4: "length (one_hot_block l vs) = card {v. Some v \<in> set vs}"
    using length_levels[of vs] by (simp add: dummies_1d_block[symmetric] dummies_1d_def)
  have 5: "map fst (one_hot_block l vs) =
           map (\<lambda>v. l @ ''_'' @ v) (sorted_list_of_set {v. Some v \<in> set vs})"
    by (simp add: one_hot_block_def comp_def)
  have 6: "\<forall>i<length vs. row_sum (one_hot_block l vs) i = (if vs ! i = None then 0 else 1)"
    using row_sum_dummies_1d[of _ vs l] by (simp add: dummies_1d_block)
  from 1 2 3 4 5 6 show ?thesis by blast
qed

theorem one_hot_encoding_witness:
  "length (one_hot_block ''job'' [Some ''retired'', Some ''admin.'']) = 2 \<and>
   row_sum (one_hot_block ''job'' [Some ''retired'', Some ''admin.'']) 0 = 1 \<and>
   row_sum (one_hot_block ''job'' [Some ''retired'', Some ''admin.'']) 1 = 1 \<and>
   one_hot_block ''job'' [Some ''retired'', Some ''admin.''] =
     [(''job_admin.'', IntCol [0, 1]), (''job_retired'', IntCol [1, 0])]"
proof -
  let ?df = "\<lparr>index = [0, 1],
     columns = [(''age'', IntCol [56, 37]),
                (''job'', ObjectCol [Some ''retired'', Some ''admin.''])]\<rparr>"
  let ?df' = "\<lparr>index = [0, 1],
     columns = [(''age'', IntCol [56, 37]), (''job_admin.'', IntCol [0, 1]),
                (''job_retired'', IntCol [1, 0])]\<rparr>"
  have h: "get_dummies ?df = Inr ?df'"
    by code_simp
  have m: "columns ?df = [(''age'', IntCol [56, 37])] @
             (''job'', ObjectCol [Some ''retired'', Some ''admin.'']) # []"
    by simp
  have c: "card {v. Some v \<in> set [Some ''retired'', Some ''admin.'']} = 2"
  proof -
    have "{v. Some v \<in> set [Some ''retired'', Some ''admin.'']} = {''retired'', ''admin.''}"
      by auto
    then show ?thesis by simp
  qed
  from one_hot_encoding[OF h m] c show ?thesis by simp
qed

subsection \<open>Transforming twice\<close>

lemma dummies_labels: "l' \<in> fst ` set (dummies (l, c)) \<Longrightarrow> CHR ''_'' \<in> set l'"
  by (cases c) (auto simp: dummies_1d_def)

lemma labels_get_dummies:
  assumes "get_dummies df = Inr df'" and "l \<in> set (labels df')"
  shows "l \<in> set (labels df) \<or> CHR ''_'' \<in> set l"
proof -
  from assms(2) have "l \<in> fst ` set (filter (\<lambda>(l, c). \<not> is_object c) (columns df)) \<or>
      l \<in> fst ` set (concat (map dummies (columns df)))"
    unfolding get_dummies_Inr[OF assms(1)] by (auto simp: labels_def)
  then show ?thesis
  proof
    assume "l \<in> fst ` set (filter (\<lambda>(l, c). \<not> is_object c) (columns df))"
    then show ?thesis by (auto simp: labels_def)
  next
    assume "l \<in> fst ` set (concat (map dummies (columns df)))"
    then obtain p where "p \<in> set (columns df)" "l \<in> fst ` set (dummies p)" by auto
    then show ?thesis using dummies_labels[of l "fst p" "snd p"] by simp
  qed
qed

lemma unnecessary_no_underscore: "u \<in> set unnecessary \<Longrightarrow> CHR ''_'' \<notin> set u"
  by (auto simp: unnecessary_def)

lemma drop_and_encode_labels:
  assumes "drop_and_encode df = Inr df'" and "u \<in> set unnecessary"
  shows "u \<notin> set (labels df')"
proof -
  from assms(1) obtain df3 where
    3: "drop_columns df unnecessary = Inr df3" and
    4: "get_dummies df3 = Inr df'"
    by (auto simp: drop_and_encode_def split: sum.splits)
  from labels_drop_columns[OF 3] assms(2) have "u \<notin> set (labels df3)" by simp
  moreover have "CHR ''_'' \<notin> set u" using assms(2) by (rule unnecessary_no_underscore)
  ultimately show ?thesis using labels_get_dummies[OF 4, of u] by blast
qed

lemma transform_output_labels:
  assumes "transform df = Inr df'" and "u \<in> set unnecessary"
  shows "u \<notin> set (labels df')"
proof -
  from assms(1) obtain df2 where "drop_and_encode df2 = Inr df'"
    by (auto simp: transform_def split: sum.splits)
  then show ?thesis using assms(2) by (rule drop_and_encode_labels)
qed

lemma drop_all_missing:
  assumes "ls \<noteq> []" and "\<forall>l \<in> set ls. l \<notin> set (labels df)"
  shows "drop_columns df ls = Inl (KeyError ls)"
proof -
  from assms(2) have "filter (\<lambda>l. l \<notin> set (labels df)) ls = ls" by (simp add: filter_id_conv)
  with assms(1) show ?thesis by (simp add: drop_columns_def)
qed

lemma transform_twice:
  assumes "transform df = Inr df'"
  shows "transform df' =
     Inl (KeyError (if ''pdays'' \<notin> set (labels df') then [''pdays'']
                    else if ''job'' \<notin> set (labels df') then [''job'']
                    else unnecessary))"
proof (cases "''pdays'' \<in> set (labels df')")
  case False
  then show ?thesis
    by (simp add: transform_def add_no_previous_contact_def getitem_missing)
next
  case pd: True
  then obtain p where p: "getitem df' ''pdays'' = Inr p" using getitem_present by blast
  define df1 where "df1 = setitem df' ''no_previous_contact'' (np_where (eq_scalar p 999) 1 0)"
  have 1: "add_no_previous_contact df' = Inr df1"
    using p by (simp add: add_no_previous_contact_def df1_def)
  have l1: "set (labels df1) = insert ''no_previous_contact'' (set (labels df'))"
    by (simp add: df1_def labels_setitem)
  show ?thesis
  proof (cases "''job'' \<in> set (labels df')")
    case False
    then have "''job'' \<notin> set (labels df1)" by (simp add: l1)
    then have "add_not_working df1 = Inl (KeyError [''job''])"
      by (simp add: add_not_working_def getitem_missing)
    with 1 pd False show ?thesis by (simp add: transform_def)
  next
    case jb: True
    then have "''job'' \<in> set (labels df1)" by (simp add: l1)
    then obtain j where j: "getitem df1 ''job'' = Inr j" using getitem_present by blast
    define df2 where "df2 = setitem df1 ''not_working''
          (np_where (in1d j [''student'', ''retired'', ''unemployed'']) 1 0)"
    have 2: "add_not_working df1 = Inr df2"
      using j by (simp add: add_not_working_def df2_def)
    have l2: "set (labels df2) =
        insert ''not_working'' (insert ''no_previous_contact'' (set (labels df')))"
      by (simp add: df2_def labels_setitem l1)
    have "\<forall>u \<in> set unnecessary. u \<notin> set (labels df2)"
    proof
      fix u assume u: "u \<in> set unnecessary"
      then have "u \<notin> set (labels df')" using transform_output_labels[OF assms] by blast
      moreover from u have "u \<noteq> ''not_working''" "u \<noteq> ''no_previous_contact''"
        by (auto simp: unnecessary_def)
      ultimately show "u \<notin> set (labels df2)" by (simp add: l2)
    qed
    moreover have "unnecessary \<noteq> []" by (simp add: unnecessary_def)
    ultimately have "drop_columns df2 unnecessary = Inl (KeyError unnecessary)"
      by (intro drop_all_missing) simp_all
    with 1 2 pd jb show ?thesis by (simp add: transform_def drop_and_encode_def)
  qed
qed

lemma drop_and_encode_twice:
  assumes "drop_and_encode df = Inr df'"
  shows "drop_and_encode df' = Inl (KeyError unnecessary)"
proof -
  have "\<forall>u \<in> set unnecessary. u \<notin> set (labels df')"
    using drop_and_encode_labels[OF assms] by blast
  moreover have "unnecessary \<noteq> []" by (simp add: unnecessary_def)
  ultimately have "drop_columns df' unnecessary = Inl (KeyError unnecessary)"
    by (intro drop_all_missing) simp_all
  then show ?thesis by (simp add: drop_and_encode_def)
qed

text \<open>
  C8. When the transform has succeeded, applying it to its own result raises \<open>KeyError\<close>
  and returns no frame. For the two statements that make \<open>df_model_data\<close>, the drop and
  the encoding, the error names all six dropped labels: none of them is in the result.
  For the whole cell the error comes from the first statement that misses its column:
  \<open>pdays\<close> or \<open>job\<close> when the encoding has replaced that column, and otherwise the six
  dropped labels again.
\<close>

theorem transform_twice_raises:
  "(drop_and_encode df = Inr df' \<longrightarrow> drop_and_encode df' = Inl (KeyError unnecessary)) \<and>
   (transform df = Inr df' \<longrightarrow>
      transform df' =
        Inl (KeyError (if ''pdays'' \<notin> set (labels df') then [''pdays'']
                       else if ''job'' \<notin> set (labels df') then [''job'']
                       else unnecessary)))"
  using drop_and_encode_twice transform_twice by blast

theorem transform_twice_raises_witness:
  "transform bank_rows = Inr model_rows \<and> transform model_rows = Inl (KeyError [''job''])"
proof -
  have h: "transform bank_rows = Inr model_rows" by code_simp
  have "''pdays'' \<in> set (labels model_rows)" "''job'' \<notin> set (labels model_rows)"
    by (simp_all add: labels_def model_rows_def)
  with transform_twice_raises[of bank_rows model_rows] h show ?thesis by simp
qed

subsection \<open>The transforms keep frames well-formed\<close>

text \<open>The frame that reaches the shuffle is well-formed when the frame read from the file is.\<close>

lemma col_len_eq_scalar: "length (eq_scalar c k) = col_len c"
  by (cases c) (simp_all add: col_len_def)

lemma col_len_in1d: "length (in1d c vs) = col_len c"
  by (cases c) (simp_all add: col_len_def)

lemma col_len_np_where: "col_len (np_where cond a b) = length cond"
  by (simp add: np_where_def col_len_def)

lemma getitem_column: "getitem df l = Inr c \<Longrightarrow> c \<in> snd ` set (columns df)"
  by (auto simp: getitem_def split: option.splits dest!: map_of_SomeD intro: image_eqI[of _ snd "(l, c)"])

lemma well_formed_column:
  "well_formed df \<Longrightarrow> c \<in> snd ` set (columns df) \<Longrightarrow> col_len c = nrows df"
  by (auto simp: well_formed_def)

lemma well_formed_setitem:
  assumes "well_formed df" and "col_len c = nrows df"
  shows "well_formed (setitem df l c)"
proof -
  have "snd ` set (columns (setitem df l c)) \<subseteq> insert c (snd ` set (columns df))"
    by (auto simp: setitem_def split: if_splits)
  moreover have "index (setitem df l c) = index df" by (simp add: setitem_def)
  ultimately have "\<forall>c' \<in> snd ` set (columns (setitem df l c)). col_len c' = nrows (setitem df l c)"
    using assms well_formed_column[OF assms(1)] by (auto simp: nrows_def)
  moreover have "distinct (index (setitem df l c))" using assms(1) by (simp add: setitem_def well_formed_def)
  ultimately show ?thesis unfolding well_formed_def by blast
qed

lemma well_formed_drop_columns:
  assumes "well_formed df" and "drop_columns df ls = Inr df'"
  shows "well_formed df'"
  using assms(1) unfolding drop_columns_Inr(2)[OF assms(2)]
  by (auto simp: well_formed_def nrows_def)

lemma col_len_dummies:
  assumes "(l', c') \<in> set (dummies (l, c))"
  shows "col_len c' = col_len c"
  using assms by (cases c) (auto simp: dummies_1d_def col_len_def)

lemma well_formed_get_dummies:
  assumes "well_formed df" and "get_dummies df = Inr df'"
  shows "well_formed df'"
proof -
  have "col_len c' = nrows df" if "c' \<in> snd ` set (columns df')" for c'
  proof -
    from that obtain l' where "(l', c') \<in> set (columns df')" by auto
    then have "(l', c') \<in> set (columns df) \<or>
        (\<exists>p \<in> set (columns df). (l', c') \<in> set (dummies p))"
      unfolding get_dummies_Inr[OF assms(2)] by auto
    then show ?thesis
    proof
      assume "(l', c') \<in> set (columns df)"
      then have "c' \<in> snd ` set (columns df)" by (rule image_eqI[of _ snd, rotated]) simp
      with assms(1) show ?thesis by (rule well_formed_column)
    next
      assume "\<exists>p \<in> set (columns df). (l', c') \<in> set (dummies p)"
      then obtain l c where p: "(l, c) \<in> set (columns df)" "(l', c') \<in> set (dummies (l, c))"
        by auto
      from p(1) have "c \<in> snd ` set (columns df)" by (rule image_eqI[of _ snd, rotated]) simp
      with assms(1) have "col_len c = nrows df" by (rule well_formed_column)
      with col_len_dummies[OF p(2)] show ?thesis by simp
    qed
  qed
  moreover have "index df' = index df" unfolding get_dummies_Inr[OF assms(2)] by simp
  ultimately have "\<forall>c' \<in> snd ` set (columns df'). col_len c' = nrows df'"
    by (simp add: nrows_def)
  moreover have "distinct (index df')" using assms(1) \<open>index df' = index df\<close>
    by (simp add: well_formed_def)
  ultimately show ?thesis unfolding well_formed_def by blast
qed

lemma well_formed_transform:
  assumes "well_formed df" and "transform df = Inr df'"
  shows "well_formed df'"
proof -
  from assms(2) obtain df1 df2 df3 where
    1: "add_no_previous_contact df = Inr df1" and
    2: "add_not_working df1 = Inr df2" and
    3: "drop_columns df2 unnecessary = Inr df3" and
    4: "get_dummies df3 = Inr df'"
    by (auto simp: transform_def drop_and_encode_def split: sum.splits)
  from 1 obtain p where p: "getitem df ''pdays'' = Inr p"
    and df1: "df1 = setitem df ''no_previous_contact'' (np_where (eq_scalar p 999) 1 0)"
    by (auto simp: add_no_previous_contact_def split: sum.splits)
  from getitem_column[OF p] assms(1) have "col_len p = nrows df"
    using well_formed_column by blast
  then have w1: "well_formed df1"
    unfolding df1 using assms(1)
    by (intro well_formed_setitem) (simp_all add: col_len_np_where col_len_eq_scalar)
  from 2 obtain j where j: "getitem df1 ''job'' = Inr j"
    and df2: "df2 = setitem df1 ''not_working''
          (np_where (in1d j [''student'', ''retired'', ''unemployed'']) 1 0)"
    by (auto simp: add_not_working_def split: sum.splits)
  from getitem_column[OF j] w1 have "col_len j = nrows df1"
    using well_formed_column by blast
  then have "well_formed df2"
    unfolding df2 using w1
    by (intro well_formed_setitem) (simp_all add: col_len_np_where col_len_in1d)
  then have "well_formed df3" using 3 by (rule well_formed_drop_columns)
  then show ?thesis using 4 by (rule well_formed_get_dummies)
qed

section \<open>Properties of the shuffle and split\<close>

subsection \<open>The cut points are in order\<close>

text \<open>
  Rounding to 53 bits moves a number by at most its \<open>2^53\<close>-th part, and the two
  literals are further apart than that.
\<close>

lemma bitlen_bounds: "n \<noteq> 0 \<Longrightarrow> 2 ^ (bitlen n - 1) \<le> n \<and> n < 2 ^ bitlen n"
proof (induction n rule: bitlen.induct)
  case (1 n)
  show ?case
  proof (cases "n div 2 = 0")
    case True
    with 1(2) have "n = 1" by (cases n) auto
    then show ?thesis by (simp add: bitlen.simps)
  next
    case False
    with 1 have IH: "2 ^ (bitlen (n div 2) - 1) \<le> n div 2" "n div 2 < 2 ^ bitlen (n div 2)"
      by simp_all
    from False have pos: "0 < bitlen (n div 2)" by (simp add: bitlen.simps[of "n div 2"])
    have b: "bitlen n = Suc (bitlen (n div 2))" using 1(2) by (simp add: bitlen.simps[of n])
    have "2 ^ (bitlen n - 1) = 2 * 2 ^ (bitlen (n div 2) - 1)"
      using pos b by (cases "bitlen (n div 2)") simp_all
    also have "\<dots> \<le> 2 * (n div 2)" using IH(1) by simp
    also have "\<dots> \<le> n" by simp
    finally have lo: "2 ^ (bitlen n - 1) \<le> n" .
    have "n < 2 * (n div 2) + 2" by presburger
    also have "\<dots> \<le> 2 * 2 ^ bitlen (n div 2)" using IH(2) by simp
    finally have "n < 2 ^ bitlen n" using b by simp
    with lo show ?thesis by simp
  qed
qed

lemma round_half_even_bounds:
  assumes "0 < s"
  shows "round_half_even p s * 2 ^ s \<le> p + 2 ^ (s - 1)"
    and "p \<le> round_half_even p s * 2 ^ s + 2 ^ (s - 1)"
proof -
  define q where "q = p div 2 ^ s"
  define r where "r = p mod 2 ^ s"
  define h :: nat where "h = 2 ^ (s - 1)"
  have two: "(2::nat) ^ s = 2 * h" using assms by (cases s) (simp_all add: h_def)
  have "p = p div 2 ^ s * 2 ^ s + p mod 2 ^ s" by (rule div_mult_mod_eq[symmetric])
  then have p: "p = q * (2 * h) + r" unfolding q_def r_def two .
  have r: "r < 2 * h" unfolding r_def two[symmetric] by simp
  have rhe: "round_half_even p s =
      (if r < h then q else if h < r then q + 1 else if even q then q else q + 1)"
    by (simp add: round_half_even_def q_def r_def h_def Let_def)
  show "round_half_even p s * 2 ^ s \<le> p + 2 ^ (s - 1)"
    unfolding rhe two h_def[symmetric] using p r by (auto simp: algebra_simps)
  show "p \<le> round_half_even p s * 2 ^ s + 2 ^ (s - 1)"
    unfolding rhe two h_def[symmetric] using p r by (auto simp: algebra_simps)
qed

lemma round53_bounds:
  "round53 p * 2 ^ 53 \<le> p * 2 ^ 53 + p" "p * 2 ^ 53 \<le> round53 p * 2 ^ 53 + p"
proof -
  have "round53 p * 2 ^ 53 \<le> p * 2 ^ 53 + p \<and> p * 2 ^ 53 \<le> round53 p * 2 ^ 53 + p"
  proof (cases "bitlen p \<le> 53")
    case True
    then show ?thesis by (simp add: round53_def)
  next
    case False
    define s where "s = bitlen p - 53"
    from False have s: "0 < s" and bl: "bitlen p - 1 = 52 + s" by (simp_all add: s_def)
    from False have "p \<noteq> 0" by (cases "p = 0") (simp_all add: bitlen.simps[of 0])
    then have "2 ^ (bitlen p - 1) \<le> p" using bitlen_bounds by blast
    then have "(2::nat) ^ (53 + (s - 1)) \<le> p" using bl s by (cases s) simp_all
    then have hp: "2 ^ 53 * 2 ^ (s - 1) \<le> p" by (simp only: power_add)
    have r: "round53 p = round_half_even p s * 2 ^ s"
      using False by (simp add: round53_def s_def Let_def)
    from round_half_even_bounds[OF s, of p]
    have "round53 p \<le> p + 2 ^ (s - 1)" "p \<le> round53 p + 2 ^ (s - 1)"
      unfolding r by simp_all
    then have "round53 p * 2 ^ 53 \<le> (p + 2 ^ (s - 1)) * 2 ^ 53"
      "p * 2 ^ 53 \<le> (round53 p + 2 ^ (s - 1)) * 2 ^ 53"
      by (simp_all only: mult_le_mono1)
    with hp show ?thesis by (simp add: algebra_simps)
  qed
  then show "round53 p * 2 ^ 53 \<le> p * 2 ^ 53 + p" "p * 2 ^ 53 \<le> round53 p * 2 ^ 53 + p"
    by simp_all
qed

lemma cut_points_ordered: "int_of_product float_0_7 n \<le> int_of_product float_0_9 n"
proof -
  define x where "x = round53 n"
  define A where "A = round53 (float_0_7 * x)"
  define B where "B = round53 (float_0_9 * x)"
  have a: "A * 2 ^ 53 \<le> float_0_7 * x * 2 ^ 53 + float_0_7 * x"
    unfolding A_def by (rule round53_bounds)
  have b: "float_0_9 * x * 2 ^ 53 \<le> B * 2 ^ 53 + float_0_9 * x"
    unfolding B_def by (rule round53_bounds)
  have "A * 2 ^ 53 \<le> B * 2 ^ 53"
    using a b by (simp add: float_0_7_def float_0_9_def)
  then have "A \<le> B" by simp
  then show ?thesis
    unfolding int_of_product_def x_def[symmetric] A_def[symmetric] B_def[symmetric]
    by (rule div_le_mono)
qed


text \<open>The cut points of 90 rows, where the first is not \<open>63\<close>.\<close>

lemma cut_points_90:
  "int_of_product float_0_7 90 = 62" "int_of_product float_0_9 90 = 81"
  by (simp_all add: int_of_product_def float_0_7_def float_0_9_def round53_def
        round_half_even_def bitlen.simps Let_def)

subsection \<open>Rows of slices and of takes\<close>

lemma cells_take_col:
  "\<forall>i \<in> set locs. i < col_len c \<Longrightarrow> cells (take_col locs c) = map (\<lambda>i. cells c ! i) locs"
  by (cases c) (simp_all add: col_len_def)

lemma cells_slice_col: "cells (slice_col st en c) = py_slice st en (cells c)"
  by (cases c) (simp_all add: py_slice_def drop_map take_map)

lemma py_slice_nth:
  assumes "i < length (py_slice st en xs)"
  shows "py_slice st en xs ! i = xs ! (st + i)"
proof -
  from assms have "st + i < en" "st + i < length xs" by (simp_all add: py_slice_def)
  then show ?thesis by (simp add: py_slice_def)
qed

lemma py_slice_map: "py_slice st en (map f xs) = map f (py_slice st en xs)"
  by (simp add: py_slice_def drop_map take_map)

lemma py_slice_three:
  assumes "a \<le> b" and "length xs \<le> n"
  shows "py_slice 0 a xs @ py_slice a b xs @ py_slice b n xs = xs"
proof -
  have "take a xs = take a (take b xs)" using assms(1) by (simp add: min_def)
  then have "take a xs @ drop a (take b xs) = take b xs"
    by (metis append_take_drop_id)
  then have "(take a xs @ drop a (take b xs)) @ drop b xs = xs" by simp
  then show ?thesis using assms(2) by (simp add: py_slice_def)
qed

lemma rows_slice_rows:
  assumes "well_formed df"
  shows "rows (slice_rows st en df) = py_slice st en (rows df)"
proof (rule nth_equalityI)
  show len: "length (rows (slice_rows st en df)) = length (py_slice st en (rows df))"
    by (simp add: rows_def slice_rows_def nrows_def py_slice_def)
  fix i assume "i < length (rows (slice_rows st en df))"
  then have i: "i < length (py_slice st en (index df))"
    by (simp add: rows_def slice_rows_def nrows_def)
  then have i2: "st + i < nrows df" "i < min en (nrows df) - st"
    by (simp_all add: py_slice_def nrows_def)
  have "row_cells (slice_rows st en df) i = row_cells df (st + i)"
  proof -
    have "cells (slice_col st en c) ! i = cells c ! (st + i)"
      if "c \<in> snd ` set (columns df)" for c
    proof -
      from that assms have "length (cells c) = nrows df" by (auto simp: well_formed_def col_len_def)
      with i2 have "i < length (py_slice st en (cells c))" by (simp add: py_slice_def)
      then show ?thesis by (simp add: cells_slice_col py_slice_nth)
    qed
    then show ?thesis
      by (auto simp: row_cells_def slice_rows_def split_beta intro!: image_eqI)
  qed
  moreover have "index (slice_rows st en df) ! i = index df ! (st + i)"
    using i by (simp add: slice_rows_def py_slice_nth)
  moreover have "i < length (py_slice st en (rows df))" using len \<open>i < length (rows (slice_rows st en df))\<close> by simp
  then have "py_slice st en (rows df) ! i = rows df ! (st + i)" by (rule py_slice_nth)
  ultimately show "rows (slice_rows st en df) ! i = py_slice st en (rows df) ! i"
    using i i2 by (simp add: rows_def slice_rows_def nrows_def)
qed

lemma well_formed_slice_rows: "well_formed df \<Longrightarrow> well_formed (slice_rows st en df)"
  by (auto simp: well_formed_def slice_rows_def nrows_def col_len_def cells_slice_col py_slice_def
      intro: distinct_drop distinct_take)

lemma take_rows_ok:
  assumes "\<forall>i \<in> set locs. i < nrows df"
  shows "take_rows locs df =
     Inr \<lparr>index = map (\<lambda>i. index df ! i) locs,
          columns = map (\<lambda>(l, c). (l, take_col locs c)) (columns df)\<rparr>"
  using assms by (auto simp: take_rows_def)

lemma rows_take_rows:
  assumes "well_formed df" and "\<forall>i \<in> set locs. i < nrows df" and "take_rows locs df = Inr df'"
  shows "rows df' = map (\<lambda>i. rows df ! i) locs"
proof -
  from assms(2,3) have df': "df' = \<lparr>index = map (\<lambda>i. index df ! i) locs,
          columns = map (\<lambda>(l, c). (l, take_col locs c)) (columns df)\<rparr>"
    by (simp add: take_rows_ok)
  show ?thesis
  proof (rule nth_equalityI)
    show "length (rows df') = length (map (\<lambda>i. rows df ! i) locs)"
      by (simp add: df' rows_def nrows_def)
    fix k assume "k < length (rows df')"
    then have k: "k < length locs" by (simp add: df' rows_def nrows_def)
    then have lk: "locs ! k < nrows df" using assms(2) by simp
    have "row_cells df' k = row_cells df (locs ! k)"
    proof -
      have "cells (take_col locs c) ! k = cells c ! (locs ! k)"
        if "c \<in> snd ` set (columns df)" for c
      proof -
        from that assms(1) have "col_len c = nrows df" by (auto simp: well_formed_def)
        with assms(2) have "\<forall>i \<in> set locs. i < col_len c" by simp
        then show ?thesis using k by (simp add: cells_take_col)
      qed
      then show ?thesis
        by (auto simp: row_cells_def df' split_beta intro!: image_eqI)
    qed
    then show "rows df' ! k = map (\<lambda>i. rows df ! i) locs ! k"
      using k lk by (simp add: rows_def df' nrows_def)
  qed
qed

lemma well_formed_take_rows:
  assumes "well_formed df" and "\<forall>i \<in> set locs. i < nrows df" and "distinct locs"
    and "take_rows locs df = Inr df'"
  shows "well_formed df'"
proof -
  from assms(2,4) have df': "df' = \<lparr>index = map (\<lambda>i. index df ! i) locs,
          columns = map (\<lambda>(l, c). (l, take_col locs c)) (columns df)\<rparr>"
    by (simp add: take_rows_ok)
  have "inj_on (\<lambda>i. index df ! i) (set locs)"
    using assms(1,2) by (auto simp: inj_on_def well_formed_def nrows_def nth_eq_iff_index_eq)
  then have "distinct (index df')" using assms(3) by (simp add: df' distinct_map)
  moreover have "col_len c' = nrows df'" if "c' \<in> snd ` set (columns df')" for c'
  proof -
    from that obtain l c where "(l, c) \<in> set (columns df)" "c' = take_col locs c"
      by (auto simp: df')
    moreover then have "col_len c = nrows df" using assms(1) by (force simp: well_formed_def)
    ultimately show ?thesis using assms(2)
      by (simp add: col_len_def cells_take_col df' nrows_def)
  qed
  ultimately show ?thesis by (simp add: well_formed_def)
qed


lemma np_split_two:
  "np_split df [a, b] = [slice_rows 0 a df, slice_rows a b df, slice_rows b (nrows df) df]"
proof -
  have "[0..<Suc (Suc (Suc 0))] = [0, Suc 0, Suc (Suc 0)]" by (simp add: upt_rec)
  then show ?thesis by (simp add: np_split_def)
qed

lemma length_rows: "length (rows df) = nrows df"
  by (simp add: rows_def)

lemma map_fst_rows: "map fst (rows df) = index df"
  by (rule nth_equalityI) (simp_all add: rows_def nrows_def)

text \<open>
  C4. For a well-formed frame of \<open>N\<close> rows, and a generator that draws a permutation of
  the \<open>N\<close> positions, the statement succeeds with three partitions: their row counts sum
  to \<open>N\<close>, together they hold every labelled row of the input exactly as often as the
  input does, and no row label is in two of them.
\<close>

theorem shuffle_split_partitions:
  assumes "well_formed df"
    and "mset (choice (new_rng 1729) (nrows df)) = mset [0..<nrows df]"
  shows "\<exists>train val test.
     shuffle_split new_rng choice g df = Inr (train, val, test) \<and>
     nrows train + nrows val + nrows test = nrows df \<and>
     mset (rows train) + mset (rows val) + mset (rows test) = mset (rows df) \<and>
     set (index train) \<inter> set (index val) = {} \<and>
     set (index train) \<inter> set (index test) = {} \<and>
     set (index val) \<inter> set (index test) = {}"
proof -
  define N where "N = nrows df"
  define locs where "locs = choice (new_rng 1729) N"
  define a where "a = int_of_product float_0_7 N"
  define b where "b = int_of_product float_0_9 N"
  have perm: "mset locs = mset [0..<N]" using assms(2) by (simp add: locs_def N_def)
  then have set_locs: "set locs = {0..<N}" by (metis mset_eq_setD set_upt)
  from perm have dist: "distinct locs" by (metis distinct_upt mset_eq_imp_distinct_iff)
  from perm have len: "length locs = N" by (metis mset_eq_length length_upt diff_zero)
  have bound: "\<forall>i \<in> set locs. i < nrows df" using set_locs by (simp add: N_def)
  obtain sh where sh: "take_rows locs df = Inr sh" using take_rows_ok[OF bound] by blast
  have vsh: "well_formed sh" using well_formed_take_rows[OF assms(1) bound dist sh] .
  have rsh: "rows sh = map (\<lambda>i. rows df ! i) locs"
    using rows_take_rows[OF assms(1) bound sh] .
  have nsh: "nrows sh = N" using rsh len length_rows[of sh] by simp
  define train where "train = slice_rows 0 a sh"
  define val where "val = slice_rows a b sh"
  define test where "test = slice_rows b N sh"
  have res: "shuffle_split new_rng choice g df = Inr (train, val, test)"
    using sh by (simp add: shuffle_split_def sample_def locs_def N_def np_split_two nsh[unfolded N_def]
        train_def val_def test_def a_def b_def)
  have ab: "a \<le> b" unfolding a_def b_def by (rule cut_points_ordered)
  have r: "rows train = py_slice 0 a (rows sh)" "rows val = py_slice a b (rows sh)"
    "rows test = py_slice b N (rows sh)"
    unfolding train_def val_def test_def using vsh by (simp_all add: rows_slice_rows)
  have cat: "rows train @ rows val @ rows test = rows sh"
    unfolding r using ab by (intro py_slice_three) (simp_all add: length_rows nsh)
  have "mset (rows sh) = image_mset (\<lambda>i. rows df ! i) (mset locs)"
    by (simp add: rsh)
  also have "\<dots> = mset (map (\<lambda>i. rows df ! i) [0..<length (rows df)])"
    by (simp add: perm length_rows N_def)
  also have "\<dots> = mset (rows df)" by (simp only: map_nth)
  finally have m: "mset (rows sh) = mset (rows df)" .
  have "mset (rows train) + mset (rows val) + mset (rows test) =
        mset (rows train @ rows val @ rows test)" by simp
  then have c2: "mset (rows train) + mset (rows val) + mset (rows test) = mset (rows df)"
    using cat m by simp
  have "length (rows train) + length (rows val) + length (rows test) = length (rows sh)"
    using arg_cong[OF cat, of length] by simp
  then have c1: "nrows train + nrows val + nrows test = nrows df"
    by (simp add: length_rows nsh N_def)
  have "index train @ index val @ index test = index sh"
    using arg_cong[OF cat, of "map fst"] by (simp add: map_fst_rows)
  moreover have "distinct (index sh)" using vsh by (simp add: well_formed_def)
  ultimately have "distinct (index train @ index val @ index test)" by simp
  then have c3: "set (index train) \<inter> set (index val) = {}"
    "set (index train) \<inter> set (index test) = {}"
    "set (index val) \<inter> set (index test) = {}"
    by auto
  from res c1 c2 c3 show ?thesis by blast
qed

lemma cut3: "int_of_product float_0_7 3 = 2" "int_of_product float_0_9 3 = 2"
  by (simp_all add: int_of_product_def float_0_7_def float_0_9_def round53_def round_half_even_def bitlen.simps Let_def)

theorem shuffle_split_partitions_witness:
  "\<exists>train val test.
     shuffle_split (\<lambda>s. s) (\<lambda>g n. rev [0..<n]) (0::nat) three_rows = Inr (train, val, test) \<and>
     nrows train + nrows val + nrows test = 3 \<and>
     mset (rows train) + mset (rows val) + mset (rows test) = mset (rows three_rows) \<and>
     set (index train) \<inter> set (index val) = {} \<and>
     set (index train) \<inter> set (index test) = {} \<and>
     set (index val) \<inter> set (index test) = {}"
proof -
  have v: "well_formed three_rows"
    by (simp add: well_formed_def three_rows_def nrows_def col_len_def)
  have n: "nrows three_rows = 3" by (simp add: three_rows_def nrows_def)
  have p: "mset ((\<lambda>g n. rev [0..<n]) ((\<lambda>s. s) (1729::nat)) (nrows three_rows)) = mset [0..<nrows three_rows]"
    by simp
  from shuffle_split_partitions[of three_rows "\<lambda>g n. rev [0..<n]" "\<lambda>s. s" 0, OF v p]
  show ?thesis by (simp only: n)
qed

subsection \<open>Two runs\<close>

text \<open>
  A run with the generator resolved to functions is the statement as defined above, and
  a run of \<open>sample\<close> likewise.
\<close>

lemma sample_run_function:
  "sample_run (\<lambda>s g. g = new_rng s) (\<lambda>g n locs. locs = choice g n) global rs df r \<longleftrightarrow>
   r = sample new_rng choice global rs df"
  by (cases rs) (auto simp: sample_run_def sample_def)

lemma shuffle_split_run_function:
  "shuffle_split_run (\<lambda>s g. g = new_rng s) (\<lambda>g n locs. locs = choice g n) global df r \<longleftrightarrow>
   r = shuffle_split new_rng choice global df"
  unfolding shuffle_split_run_def shuffle_split_def sample_run_function by simp

text \<open>
  C9. Take two runs of the statement on the same frame, each with its own state of
  numpy's global generator and its own generator made from the seed. If generators made
  from the seed 1729 draw one sequence of positions for a frame of that many rows, which
  is what numpy promises of a seeded generator, the two runs give the same result: the
  same three partitions, with the same rows in the same order. The global generator is
  not read, so its state at either run does not matter.
\<close>

theorem shuffle_split_deterministic:
  assumes "\<forall>g g' locs locs'.
      seeded 1729 g \<and> seeded 1729 g' \<and>
      draws g (nrows df) locs \<and> draws g' (nrows df) locs' \<longrightarrow> locs = locs'"
    and "shuffle_split_run seeded draws g1 df r1"
    and "shuffle_split_run seeded draws g2 df r2"
  shows "r1 = r2"
proof -
  let ?split = "\<lambda>sampled. case sampled of
               Inl e \<Rightarrow> Inl e
             | Inr shuffled \<Rightarrow>
                 (case np_split shuffled
                         [int_of_product float_0_7 (nrows df),
                          int_of_product float_0_9 (nrows df)] of
                    [train_data, validation_data, test_data] \<Rightarrow>
                      Inr (train_data, validation_data, test_data)
                  | _ \<Rightarrow> Inl (ValueError ''wrong number of values to unpack''))"
  from assms(2) obtain g locs where 1: "seeded 1729 g" "draws g (nrows df) locs"
    and r1: "r1 = ?split (take_rows locs df)"
    by (auto simp: shuffle_split_run_def sample_run_def)
  from assms(3) obtain g' locs' where 2: "seeded 1729 g'" "draws g' (nrows df) locs'"
    and r2: "r2 = ?split (take_rows locs' df)"
    by (auto simp: shuffle_split_run_def sample_run_def)
  from assms(1) 1 2 have "locs = locs'" by blast
  with r1 r2 show ?thesis by simp
qed

theorem shuffle_split_deterministic_witness:
  "shuffle_split (\<lambda>s. s) (\<lambda>g n. rev [0..<n]) (0::nat) three_rows =
   shuffle_split (\<lambda>s. s) (\<lambda>g n. rev [0..<n]) 1 three_rows"
proof -
  let ?seeded = "\<lambda>(s::nat) (g::nat). g = (\<lambda>s. s) s"
  let ?draws = "\<lambda>(g::nat) (n::nat) locs. locs = (\<lambda>g n. rev [0..<n]) g n"
  have h: "\<forall>g g' locs locs'.
      ?seeded 1729 g \<and> ?seeded 1729 g' \<and>
      ?draws g (nrows three_rows) locs \<and> ?draws g' (nrows three_rows) locs' \<longrightarrow> locs = locs'"
    by simp
  have a: "shuffle_split_run ?seeded ?draws 0 three_rows
             (shuffle_split (\<lambda>s. s) (\<lambda>g n. rev [0..<n]) 0 three_rows)"
    by (simp only: shuffle_split_run_function)
  have b: "shuffle_split_run ?seeded ?draws 1 three_rows
             (shuffle_split (\<lambda>s. s) (\<lambda>g n. rev [0..<n]) 1 three_rows)"
    by (simp only: shuffle_split_run_function)
  from shuffle_split_deterministic[OF h a b] show ?thesis .
qed

text \<open>
  The hypothesis is needed: were the generator made from the seed in a state of its own
  at every run, two runs could differ. And so is the seed: a run of \<open>sample\<close> without one
  draws from the global generator, and two runs that find it in different states can
  differ although every generator draws one sequence.
\<close>

lemma undetermined_generator_runs_differ:
  "shuffle_split_run (\<lambda>s g. True) (\<lambda>g n locs. locs = (if g = (0::nat) then [0..<n] else rev [0..<n]))
     (0::nat) three_rows
     (shuffle_split (\<lambda>s. 0) (\<lambda>g n. if g = (0::nat) then [0..<n] else rev [0..<n]) 0 three_rows) \<and>
   shuffle_split_run (\<lambda>s g. True) (\<lambda>g n locs. locs = (if g = (0::nat) then [0..<n] else rev [0..<n]))
     (0::nat) three_rows
     (shuffle_split (\<lambda>s. 1) (\<lambda>g n. if g = (0::nat) then [0..<n] else rev [0..<n]) 0 three_rows) \<and>
   shuffle_split (\<lambda>s. 0) (\<lambda>g n. if g = (0::nat) then [0..<n] else rev [0..<n]) (0::nat) three_rows \<noteq>
   shuffle_split (\<lambda>s. 1) (\<lambda>g n. if g = (0::nat) then [0..<n] else rev [0..<n]) 0 three_rows"
proof -
  let ?draws = "\<lambda>(g::nat) (n::nat) locs. locs = (if g = 0 then [0..<n] else rev [0..<n])"
  let ?choice = "\<lambda>(g::nat) (n::nat). if g = 0 then [0..<n] else rev [0..<n]"
  have run: "shuffle_split_run (\<lambda>s g. True) ?draws (0::nat) three_rows
               (shuffle_split (\<lambda>s. k) ?choice 0 three_rows)" for k :: nat
    unfolding shuffle_split_run_def shuffle_split_def sample_run_def sample_def
    by (intro exI[of _ "take_rows (?choice k (nrows three_rows)) three_rows"] conjI
          exI[of _ k] exI[of _ "?choice k (nrows three_rows)"]) simp_all
  have ne: "shuffle_split (\<lambda>s. 0) ?choice (0::nat) three_rows \<noteq>
            shuffle_split (\<lambda>s. 1) ?choice 0 three_rows"
    by (simp add: shuffle_split_def sample_def take_rows_def three_rows_def nrows_def
          np_split_two cut3[unfolded numeral_3_eq_3] slice_rows_def py_slice_def
          upt_rec[of 0] upt_rec[of 1] upt_rec[of 2])
  from run[of 0] run[of 1] ne show ?thesis by blast
qed

lemma unseeded_sample_runs_differ:
  "sample_run (\<lambda>s g. g = s) (\<lambda>g n locs. locs = (if g = (0::nat) then [0..<n] else rev [0..<n]))
     0 Unseeded three_rows
     (sample (\<lambda>s. s) (\<lambda>g n. if g = (0::nat) then [0..<n] else rev [0..<n]) 0 Unseeded three_rows) \<and>
   sample_run (\<lambda>s g. g = s) (\<lambda>g n locs. locs = (if g = (0::nat) then [0..<n] else rev [0..<n]))
     1 Unseeded three_rows
     (sample (\<lambda>s. s) (\<lambda>g n. if g = (0::nat) then [0..<n] else rev [0..<n]) 1 Unseeded three_rows) \<and>
   sample (\<lambda>s. s) (\<lambda>g n. if g = (0::nat) then [0..<n] else rev [0..<n]) 0 Unseeded three_rows \<noteq>
   sample (\<lambda>s. s) (\<lambda>g n. if g = (0::nat) then [0..<n] else rev [0..<n]) 1 Unseeded three_rows"
proof -
  have "sample (\<lambda>s. s) (\<lambda>g n. if g = (0::nat) then [0..<n] else rev [0..<n]) 0 Unseeded three_rows \<noteq>
   sample (\<lambda>s. s) (\<lambda>g n. if g = (0::nat) then [0..<n] else rev [0..<n]) 1 Unseeded three_rows"
    by code_simp
  then show ?thesis by (simp add: sample_run_function)
qed

section \<open>Properties of the written files\<close>

lemma to_csv_plain:
  "to_csv f False False = map (\<lambda>i. Row (row_cells f i)) [0..<nrows f]"
  by (simp add: to_csv_def)

lemma getitem_all_Inr:
  assumes "getitem_all d l = Inr found"
  shows "found = filter (\<lambda>(l', c). l' = l) (columns d)" and "l \<in> set (labels d)"
proof -
  from assms show "found = filter (\<lambda>(l', c). l' = l) (columns d)"
    by (auto simp: getitem_all_def Let_def split: if_splits)
  from assms have "filter (\<lambda>(l', c). l' = l) (columns d) \<noteq> []"
    by (auto simp: getitem_all_def Let_def split: if_splits)
  then obtain p where "p \<in> set (columns d)" "fst p = l"
    by (auto simp: filter_empty_conv)
  then show "l \<in> set (labels d)" by (auto simp: labels_def)
qed

lemma target_first_Inr:
  assumes "target_first d = Inr f"
  shows "columns f = written_columns d" and "nrows f = nrows d"
    and "target_first_records d (to_csv f False False)"
proof -
  from assms obtain y rest where y: "getitem_all d ''y_yes'' = Inr y"
    and rest: "drop_columns d [''y_no'', ''y_yes''] = Inr rest"
    and f: "f = concat_axis1 y rest"
    by (auto simp: target_first_def split: sum.splits)
  have r: "rest = d\<lparr>columns := filter (\<lambda>(l, c). l \<notin> set [''y_no'', ''y_yes'']) (columns d)\<rparr>"
    using drop_columns_Inr(2)[OF rest] .
  show c: "columns f = written_columns d"
    by (simp add: f r concat_axis1_def getitem_all_Inr(1)[OF y] written_columns_def)
  show n: "nrows f = nrows d" by (simp add: f r concat_axis1_def nrows_def)
  have "''y_no'' \<in> set (labels d)" using drop_columns_Inr(1)[OF rest] by simp
  then show "target_first_records d (to_csv f False False)"
    unfolding target_first_records_def to_csv_plain n written_records_def
    using getitem_all_Inr(2)[OF y] by (simp add: row_cells_def c)
qed

lemma write_csv_cases:
  "(\<exists>e. write_csv path d fs = Inl e) \<or>
   (\<exists>recs. write_csv path d fs = Inr (fs(path \<mapsto> recs)) \<and> target_first_records d recs)"
proof (cases "target_first d")
  case (Inl e)
  then show ?thesis by (simp add: write_csv_def)
next
  case (Inr f)
  then have "write_csv path d fs = Inr (fs(path \<mapsto> to_csv f False False))"
    by (simp add: write_csv_def)
  with target_first_Inr(3)[OF Inr] show ?thesis by blast
qed

lemma written_columns_first:
  assumes "''y_yes'' \<in> set (labels d)"
  shows "fst (hd (written_columns d)) = ''y_yes''"
proof -
  let ?ys = "filter (\<lambda>(l, c). l = ''y_yes'') (columns d)"
  from assms have ne: "?ys \<noteq> []" by (auto simp: labels_def filter_empty_conv)
  then have "hd ?ys \<in> set ?ys" by (rule hd_in_set)
  then have "fst (hd ?ys) = ''y_yes''" by auto
  with ne show ?thesis by (simp add: written_columns_def)
qed

lemma written_columns_no_y_no: "''y_no'' \<notin> fst ` set (written_columns d)"
  by (auto simp: written_columns_def)

lemma written_columns_keep:
  "p \<in> set (columns d) \<Longrightarrow> fst p \<noteq> ''y_no'' \<Longrightarrow> p \<in> set (written_columns d)"
  by (cases p) (auto simp: written_columns_def)

lemma written_records_rows:
  "length (written_records d) = nrows d"
  "i < nrows d \<Longrightarrow> written_records d ! i = Row (map (\<lambda>(l, c). cells c ! i) (written_columns d))"
  by (simp_all add: written_records_def)

text \<open>
  A label that repeats is selected whole: a frame read with a numeric column \<open>y_yes\<close>
  beside the target gets a second \<open>y_yes\<close> from the encoding, and both are written first.
\<close>

lemma repeated_label_is_written_whole:
  "get_dummies \<lparr>index = [0, 1],
      columns = [(''y_yes'', IntCol [5, 7]), (''age'', IntCol [30, 40]),
                 (''y'', ObjectCol [Some ''yes'', Some ''no''])]\<rparr> =
     Inr \<lparr>index = [0, 1],
          columns = [(''y_yes'', IntCol [5, 7]), (''age'', IntCol [30, 40]),
                     (''y_no'', IntCol [0, 1]), (''y_yes'', IntCol [1, 0])]\<rparr> \<and>
   map_sum id (\<lambda>f. to_csv f False False)
     (target_first \<lparr>index = [0, 1],
          columns = [(''y_yes'', IntCol [5, 7]), (''age'', IntCol [30, 40]),
                     (''y_no'', IntCol [0, 1]), (''y_yes'', IntCol [1, 0])]\<rparr>) =
     Inr [Row [IntV 5, IntV 1, IntV 30], Row [IntV 7, IntV 0, IntV 40]]"
  by code_simp

text \<open>
  C7, as stated, fails in its last part: the cell drops the labels \<open>y_no\<close> and \<open>y_yes\<close>
  by name, so the indicator of any further value of the target stays among the columns
  written. Here the target has the values \<open>no\<close>, \<open>yes\<close> and \<open>unknown\<close>; the encoding
  makes \<open>y_no\<close>, \<open>y_unknown\<close> and \<open>y_yes\<close> of it, and every record of the file ends with
  the row's \<open>y_unknown\<close> entry.
\<close>

theorem third_target_value_is_written:
  "get_dummies three_valued = Inr three_valued_model \<and>
   target_first three_valued_model =
     Inr \<lparr>index = [0, 1, 2],
          columns = [(''y_yes'', IntCol [0, 1, 0]),
                     (''age'', IntCol [56, 37, 40]),
                     (''y_unknown'', IntCol [0, 0, 1])]\<rparr> \<and>
   final_files (create_csv_files (three_valued_model, three_valued_model, three_valued_model)
       Map.empty) ''data/train.csv'' =
     Some [Row [IntV 0, IntV 56, IntV 0], Row [IntV 1, IntV 37, IntV 0],
           Row [IntV 0, IntV 40, IntV 1]]"
  by code_simp

text \<open>
  C7, amended. When the cell succeeds, each of \<open>data/train.csv\<close>, \<open>data/validation.csv\<close> and
  \<open>data/test.csv\<close> holds one record for each row of its partition, in order, and no header
  record. The fields of a record are the row's entries in the columns labelled \<open>y_yes\<close>,
  which come first, and then in every column labelled neither \<open>y_no\<close> nor \<open>y_yes\<close>: no
  column labelled \<open>y_no\<close> is written, and every other column is, the indicator of a
  further target value included. Whether or not the cell succeeds, every one of the three
  files that it has written is of that form.
\<close>

theorem csv_files_target_first:
  "(create_csv_files (train, val, test) fs = Inr fs' \<longrightarrow>
      fs' ''data/train.csv'' = Some (written_records train) \<and>
      fs' ''data/validation.csv'' = Some (written_records val) \<and>
      fs' ''data/test.csv'' = Some (written_records test) \<and>
      ''y_yes'' \<in> set (labels train) \<and> ''y_yes'' \<in> set (labels val) \<and>
      ''y_yes'' \<in> set (labels test)) \<and>
   written_ok fs (final_files (create_csv_files (train, val, test) fs)) ''data/train.csv'' train \<and>
   written_ok fs (final_files (create_csv_files (train, val, test) fs)) ''data/validation.csv'' val \<and>
   written_ok fs (final_files (create_csv_files (train, val, test) fs)) ''data/test.csv'' test \<and>
   (\<forall>d. length (written_records d) = nrows d \<and>
        (\<forall>i<nrows d. written_records d ! i =
                        Row (map (\<lambda>(l, c). cells c ! i) (written_columns d))) \<and>
        (''y_yes'' \<in> set (labels d) \<longrightarrow> fst (hd (written_columns d)) = ''y_yes'') \<and>
        ''y_no'' \<notin> fst ` set (written_columns d) \<and>
        (\<forall>p \<in> set (columns d). fst p \<noteq> ''y_no'' \<longrightarrow> p \<in> set (written_columns d)))"
proof -
  let ?p1 = "''data/train.csv''" and ?p2 = "''data/validation.csv''" and ?p3 = "''data/test.csv''"
  have ne: "?p1 \<noteq> ?p2" "?p1 \<noteq> ?p3" "?p2 \<noteq> ?p3" by simp_all
  have general: "\<forall>d. length (written_records d) = nrows d \<and>
        (\<forall>i<nrows d. written_records d ! i =
                        Row (map (\<lambda>(l, c). cells c ! i) (written_columns d))) \<and>
        (''y_yes'' \<in> set (labels d) \<longrightarrow> fst (hd (written_columns d)) = ''y_yes'') \<and>
        ''y_no'' \<notin> fst ` set (written_columns d) \<and>
        (\<forall>p \<in> set (columns d). fst p \<noteq> ''y_no'' \<longrightarrow> p \<in> set (written_columns d))"
    using written_records_rows written_columns_first written_columns_no_y_no
      written_columns_keep by blast
  have files: "(create_csv_files (train, val, test) fs = Inr fs' \<longrightarrow>
      fs' ?p1 = Some (written_records train) \<and>
      fs' ?p2 = Some (written_records val) \<and>
      fs' ?p3 = Some (written_records test) \<and>
      ''y_yes'' \<in> set (labels train) \<and> ''y_yes'' \<in> set (labels val) \<and>
      ''y_yes'' \<in> set (labels test)) \<and>
   written_ok fs (final_files (create_csv_files (train, val, test) fs)) ?p1 train \<and>
   written_ok fs (final_files (create_csv_files (train, val, test) fs)) ?p2 val \<and>
   written_ok fs (final_files (create_csv_files (train, val, test) fs)) ?p3 test"
    using write_csv_cases[of ?p1 train fs]
  proof (elim disjE exE conjE)
    fix e assume "write_csv ?p1 train fs = Inl e"
    then have "create_csv_files (train, val, test) fs = Inl (e, fs)"
      by (simp add: create_csv_files_def)
    then show ?thesis by (simp add: final_files_def written_ok_def)
  next
    fix r1 assume w1: "write_csv ?p1 train fs = Inr (fs(?p1 \<mapsto> r1))"
      and t1: "target_first_records train r1"
    let ?fs1 = "fs(?p1 \<mapsto> r1)"
    from write_csv_cases[of ?p2 val ?fs1] show ?thesis
    proof (elim disjE exE conjE)
      fix e assume "write_csv ?p2 val ?fs1 = Inl e"
      with w1 have "create_csv_files (train, val, test) fs = Inl (e, ?fs1)"
        by (simp add: create_csv_files_def)
      with t1 show ?thesis by (simp add: final_files_def written_ok_def)
    next
      fix r2 assume w2: "write_csv ?p2 val ?fs1 = Inr (?fs1(?p2 \<mapsto> r2))"
        and t2: "target_first_records val r2"
      let ?fs2 = "?fs1(?p2 \<mapsto> r2)"
      from write_csv_cases[of ?p3 test ?fs2] show ?thesis
      proof (elim disjE exE conjE)
        fix e assume "write_csv ?p3 test ?fs2 = Inl e"
        with w1 w2 have "create_csv_files (train, val, test) fs = Inl (e, ?fs2)"
          by (simp add: create_csv_files_def)
        with t1 t2 show ?thesis by (simp add: final_files_def written_ok_def)
      next
        fix r3 assume w3: "write_csv ?p3 test ?fs2 = Inr (?fs2(?p3 \<mapsto> r3))"
          and t3: "target_first_records test r3"
        with w1 w2 have c: "create_csv_files (train, val, test) fs = Inr (?fs2(?p3 \<mapsto> r3))"
          by (simp add: create_csv_files_def)
        from t1 t2 t3 have r: "r1 = written_records train" "r2 = written_records val"
          "r3 = written_records test"
          and y: "''y_yes'' \<in> set (labels train)" "''y_yes'' \<in> set (labels val)"
          "''y_yes'' \<in> set (labels test)"
          by (simp_all add: target_first_records_def)
        from c t1 t2 t3 r y show ?thesis by (auto simp: final_files_def written_ok_def)
      qed
    qed
  qed
  from files general show ?thesis by blast
qed

theorem csv_files_target_first_witness:
  "\<exists>fs'. create_csv_files (model_rows, model_rows, model_rows) Map.empty = Inr fs' \<and>
     fs' ''data/train.csv'' =
       Some [Row [IntV 0, IntV 56, IntV 999, IntV 1, IntV 1, IntV 0, IntV 1],
             Row [IntV 1, IntV 37, IntV 6, IntV 0, IntV 0, IntV 1, IntV 0]]"
proof -
  define recs where "recs = to_csv (concat_axis1 [(''y_yes'', IntCol [0, 1])]
     (model_rows\<lparr>columns := filter (\<lambda>(l, c). l \<notin> set [''y_no'', ''y_yes''])
                             (columns model_rows)\<rparr>)) False False"
  define fs' where "fs' = Map.empty(''data/train.csv'' \<mapsto> recs,
     ''data/validation.csv'' \<mapsto> recs, ''data/test.csv'' \<mapsto> recs)"
  have h: "create_csv_files (model_rows, model_rows, model_rows) Map.empty = Inr fs'"
    by (simp add: create_csv_files_def write_csv_def target_first_def getitem_all_def
          drop_columns_def labels_def model_rows_def fs'_def recs_def)
  have w: "written_records model_rows =
       [Row [IntV 0, IntV 56, IntV 999, IntV 1, IntV 1, IntV 0, IntV 1],
        Row [IntV 1, IntV 37, IntV 6, IntV 0, IntV 0, IntV 1, IntV 0]]"
    by code_simp
  from csv_files_target_first[of model_rows model_rows model_rows Map.empty fs'] h
  have "fs' ''data/train.csv'' = Some (written_records model_rows)" by blast
  with h w show ?thesis by auto
qed

end
